theory Spec2Isabelle
  imports Main "HOL-Library.AList"
begin

text \<open>
  The node dialog of the editor, \<^verbatim>\<open>src/features/modals/NodeModal/index.tsx\<close>: the display of
  a node's rows (\<^verbatim>\<open>normalizeNodeData\<close>) and of its path (\<^verbatim>\<open>jsonPathToString\<close>), reading and
  writing a value at a path of the document (\<^verbatim>\<open>getValueAtPath\<close>, \<^verbatim>\<open>setValueAtPath\<close>), and
  the edit session around them (\<^verbatim>\<open>handleSave\<close> and the handlers of the component).  The
  functions are embedded as they are written: objects and arrays live in a store, so that an
  assignment through one reference is seen through every other, and an exception is a result.
\<close>

section \<open>JavaScript strings and numbers\<close>

text \<open>
  A JavaScript string is a list of characters, one \<^typ>\<open>char\<close> per code unit.  The numbers
  that occur as path segments are non-negative integers, the numbers that occur as JSON
  values are integers.  Both print in plain decimal, as the conversion of a number to a string
  does for every integer below \<open>10^21\<close>.
\<close>

definition digit_char :: "nat \<Rightarrow> char" where
  "digit_char d = ''0123456789'' ! d"

fun decimal :: "nat \<Rightarrow> string" where
  "decimal n = (if n < 10 then [digit_char n] else decimal (n div 10) @ [digit_char (n mod 10)])"

declare decimal.simps [simp del]

definition number_to_string :: "int \<Rightarrow> string" where
  "number_to_string i = (if i < 0 then ''-'' @ decimal (nat (- i)) else decimal (nat i))"

text \<open>\<^verbatim>\<open>Array.prototype.join\<close> on a list of strings.\<close>

fun join :: "string \<Rightarrow> string list \<Rightarrow> string" where
  "join sep [] = []"
| "join sep [x] = x"
| "join sep (x # y # ys) = x @ sep @ join sep (y # ys)"

text \<open>
  Property keys are strings.  A numeric index is a canonical numeric string (no sign, no
  leading zero); it is an array index when its value is below \<open>2^32 - 1\<close>.  The array
  indices are the keys that an array counts in its length and that every object enumerates
  first, in ascending order.
\<close>

definition is_digit :: "char \<Rightarrow> bool" where
  "is_digit c = (c \<in> set ''0123456789'')"

definition digit_val :: "char \<Rightarrow> nat" where
  "digit_val c = of_char c - 48"

definition str_value :: "string \<Rightarrow> nat" where
  "str_value s = foldl (\<lambda>a c. 10 * a + digit_val c) 0 s"

definition canonical :: "string \<Rightarrow> bool" where
  "canonical s =
     (case s of
        [] \<Rightarrow> False
      | c # cs \<Rightarrow> list_all is_digit s \<and> (if c = CHR ''0'' then cs = [] else True))"

definition numeric_index :: "string \<Rightarrow> nat option" where
  "numeric_index s = (if canonical s then Some (str_value s) else None)"

definition array_index :: "string \<Rightarrow> nat option" where
  "array_index s =
     (case numeric_index s of
        None \<Rightarrow> None
      | Some i \<Rightarrow> if int i < 4294967295 then Some i else None)"

section \<open>Own properties of an object, in enumeration order\<close>

text \<open>
  The own properties of an object are an association list in the order in which JavaScript
  enumerates them: array-index keys first, ascending, then every other key in the order of its
  creation.  Assigning to an existing key keeps its place.
\<close>

type_synonym 'v props = "(string \<times> 'v) list"

definition key_before :: "string \<Rightarrow> string \<Rightarrow> bool" where
  "key_before k k' =
     (case array_index k of
        None \<Rightarrow> False
      | Some i \<Rightarrow> (case array_index k' of None \<Rightarrow> True | Some j \<Rightarrow> i < j))"

fun insert_new :: "string \<Rightarrow> 'v \<Rightarrow> 'v props \<Rightarrow> 'v props" where
  "insert_new k v [] = [(k, v)]"
| "insert_new k v (p # ps) =
     (if key_before k (fst p) then (k, v) # p # ps else p # insert_new k v ps)"

definition props_put :: "string \<Rightarrow> 'v \<Rightarrow> 'v props \<Rightarrow> 'v props" where
  "props_put k v ps =
     (case map_of ps k of
        Some old \<Rightarrow> AList.update k v ps
      | None \<Rightarrow> insert_new k v ps)"

section \<open>Path segments and their display (jsonPathToString)\<close>

text \<open>
  Modelled from the spec: the type \<^verbatim>\<open>NodeData\<close> is declared in \<^verbatim>\<open>types/graph\<close>, which is
  not among the sources.  A path is a sequence of segments, each a non-negative integer (an
  array index) or a string (an object key).
\<close>

datatype seg = Index nat | Key string

text \<open>
  \<^verbatim>\<open>path.map(seg => (typeof seg === "number" ? seg : `"${seg}"`))\<close>, each element then
  converted to a string by \<^verbatim>\<open>join\<close>.
\<close>

definition seg_text :: "seg \<Rightarrow> string" where
  \<open>seg_text s = (case s of Index n \<Rightarrow> decimal n | Key k \<Rightarrow> ''"'' @ k @ ''"'')\<close>

text \<open>The argument is optional in the source: \<open>None\<close> is a call without a path.\<close>

definition jsonPathToString :: "seg list option \<Rightarrow> string" where
  "jsonPathToString path =
     (case path of
        None \<Rightarrow> ''$''
      | Some p \<Rightarrow> if length p = 0 then ''$'' else ''$['' @ join '']['' (map seg_text p) @ '']'')"

section \<open>Node rows and their display (normalizeNodeData)\<close>

text \<open>
  Modelled from the spec: the rows of a node, \<^verbatim>\<open>NodeData["text"]\<close>, are declared in
  \<^verbatim>\<open>types/graph\<close>, which is not among the sources.  A row has a key (a string, or none), a
  value (a JSON scalar) and a type tag.  The tag is a string, which the source compares with
  \<^verbatim>\<open>"array"\<close> and \<^verbatim>\<open>"object"\<close>.
\<close>

datatype scalar = SNull | SBool bool | SNum int | SStr string

record node_row =
  row_key :: "string option"
  row_value :: scalar
  row_type :: string

text \<open>The template literal \<^verbatim>\<open>`${v}`\<close>: a string is inserted as it is, without quotes.\<close>

fun to_string :: "scalar \<Rightarrow> string" where
  "to_string SNull = ''null''"
| "to_string (SBool b) = (if b then ''true'' else ''false'')"
| "to_string (SNum n) = number_to_string n"
| "to_string (SStr s) = s"

text \<open>\<^verbatim>\<open>JSON.stringify\<close> on a string: quotes around it, and the escapes of the standard.\<close>

definition hex_char :: "nat \<Rightarrow> char" where
  "hex_char d = ''0123456789abcdef'' ! d"

definition quote_char :: "char \<Rightarrow> string" where
  \<open>quote_char c =
     (if c = CHR 0x22 then [CHR 0x5C, CHR 0x22]
      else if c = CHR 0x5C then [CHR 0x5C, CHR 0x5C]
      else if c = CHR 0x08 then [CHR 0x5C, CHR ''b'']
      else if c = CHR 0x0C then [CHR 0x5C, CHR ''f'']
      else if c = CHR 0x0A then [CHR 0x5C, CHR ''n'']
      else if c = CHR 0x0D then [CHR 0x5C, CHR ''r'']
      else if c = CHR 0x09 then [CHR 0x5C, CHR ''t'']
      else if (of_char c :: nat) < 32
        then [CHR 0x5C, CHR ''u'', CHR ''0'', CHR ''0'',
              hex_char (of_char c div 16), hex_char (of_char c mod 16)]
      else [c])\<close>

definition json_quote :: "string \<Rightarrow> string" where
  \<open>json_quote s = [CHR 0x22] @ concat (map quote_char s) @ [CHR 0x22]\<close>

fun json_scalar :: "scalar \<Rightarrow> string" where
  "json_scalar SNull = ''null''"
| "json_scalar (SBool b) = (if b then ''true'' else ''false'')"
| "json_scalar (SNum n) = number_to_string n"
| "json_scalar (SStr s) = json_quote s"

text \<open>
  \<^verbatim>\<open>JSON.stringify(obj, null, 2)\<close> on an object whose properties are scalars: \<^verbatim>\<open>{}\<close> when
  there is none, otherwise one property per line, indented by two spaces.
\<close>

definition json_member :: "string \<times> scalar \<Rightarrow> string" where
  "json_member p = ''  '' @ json_quote (fst p) @ '': '' @ json_scalar (snd p)"

definition stringify_flat :: "scalar props \<Rightarrow> string" where
  "stringify_flat ps =
     (if ps = [] then ''{}''
      else [CHR ''{'', CHR 0x0A] @ join [CHR '','', CHR 0x0A] (map json_member ps) @ [CHR 0x0A, CHR ''}''])"

text \<open>
  The object literal \<^verbatim>\<open>{}\<close> that the source fills by \<^verbatim>\<open>obj[row.key] = row.value\<close>.  It
  inherits from \<^verbatim>\<open>Object.prototype\<close>, whose only accessor is \<^verbatim>\<open>__proto__\<close>: assigning a
  scalar to that key creates no property, and assigning \<^verbatim>\<open>null\<close> detaches the prototype,
  after which \<^verbatim>\<open>__proto__\<close> is a key like any other.  Every other assignment creates or
  updates an own property.
\<close>

record plain_obj =
  proto_null :: bool
  own :: "scalar props"

definition empty_obj :: plain_obj where
  "empty_obj = \<lparr>proto_null = False, own = []\<rparr>"

definition assign_prop :: "string \<Rightarrow> scalar \<Rightarrow> plain_obj \<Rightarrow> plain_obj" where
  "assign_prop k v ob =
     (if k = ''__proto__'' \<and> map_of (own ob) k = None \<and> \<not> proto_null ob
      then (if v = SNull then ob\<lparr>proto_null := True\<rparr> else ob)
      else ob\<lparr>own := props_put k v (own ob)\<rparr>)"

text \<open>The body of the \<^verbatim>\<open>forEach\<close>; \<^verbatim>\<open>if (row.key)\<close> is false for a missing and for an empty key.\<close>

definition add_row :: "plain_obj \<Rightarrow> node_row \<Rightarrow> plain_obj" where
  "add_row ob row =
     (if row_type row \<noteq> ''array'' \<and> row_type row \<noteq> ''object''
      then (case row_key row of
              None \<Rightarrow> ob
            | Some k \<Rightarrow> if k = [] then ob else assign_prop k (row_value row) ob)
      else ob)"

definition build_obj :: "node_row list \<Rightarrow> plain_obj" where
  "build_obj rows = foldl add_row empty_obj rows"

definition falsy_key :: "string option \<Rightarrow> bool" where
  "falsy_key k = (case k of None \<Rightarrow> True | Some s \<Rightarrow> s = [])"

definition normalizeNodeData :: "node_row list \<Rightarrow> string" where
  "normalizeNodeData nodeRows =
     (if length nodeRows = 0 then ''{}''
      else if length nodeRows = 1 \<and> falsy_key (row_key (hd nodeRows))
        then to_string (row_value (hd nodeRows))
      else stringify_flat (own (build_obj nodeRows)))"

section \<open>Values, objects and the store\<close>

text \<open>
  A value is a primitive or a reference to an object of the store.  An object is a plain object
  or an array; both carry their own properties, and an array also its \<^verbatim>\<open>length\<close>.  The
  elements of an array are its properties under array-index keys; an index below the length
  without a property is a hole.  The store is a list of objects, an address is a position in
  it, and a new object is appended.
\<close>

type_synonym addr = nat

datatype jsval = JUndefined | JNull | JBool bool | JNum int | JStr string | JRef addr

datatype jsobj = Obj "jsval props" | Arr nat "jsval props"

type_synonym heap = "jsobj list"

text \<open>
  What a step can throw.  \<open>Unmodelled\<close> is not an exception of the program: it marks a step
  whose effect lies outside this embedding (a member inherited from the prototype objects of the
  runtime, the \<^verbatim>\<open>__proto__\<close> accessor, a dangling address).  Where a property below needs
  that no such step occurs, it says so in a hypothesis on the document and the path, and under
  it the result is proved to be a value or an exception of the program.
\<close>

datatype js_error = TypeError | RangeError | Unmodelled

text \<open>
  The names that the standard prototype objects define.  A property read that finds no own
  property under such a name continues into the prototype chain and is \<open>Unmodelled\<close>; under
  any other name it yields \<^verbatim>\<open>undefined\<close>.
\<close>

definition object_proto_names :: "string list" where
  "object_proto_names =
     [''__defineGetter__'', ''__defineSetter__'', ''__lookupGetter__'', ''__lookupSetter__'',
      ''__proto__'', ''constructor'', ''hasOwnProperty'', ''isPrototypeOf'',
      ''propertyIsEnumerable'', ''toLocaleString'', ''toString'', ''valueOf'']"

definition array_proto_names :: "string list" where
  "array_proto_names =
     [''at'', ''concat'', ''copyWithin'', ''entries'', ''every'', ''fill'', ''filter'', ''find'',
      ''findIndex'', ''findLast'', ''findLastIndex'', ''flat'', ''flatMap'', ''forEach'',
      ''includes'', ''indexOf'', ''join'', ''keys'', ''lastIndexOf'', ''map'', ''pop'', ''push'',
      ''reduce'', ''reduceRight'', ''reverse'', ''shift'', ''slice'', ''some'', ''sort'',
      ''splice'', ''toReversed'', ''toSorted'', ''toSpliced'', ''unshift'', ''values'', ''with'']"

definition string_proto_names :: "string list" where
  "string_proto_names =
     [''anchor'', ''at'', ''big'', ''blink'', ''bold'', ''charAt'', ''charCodeAt'',
      ''codePointAt'', ''concat'', ''endsWith'', ''fixed'', ''fontcolor'', ''fontsize'',
      ''includes'', ''indexOf'', ''isWellFormed'', ''italics'', ''lastIndexOf'', ''link'',
      ''localeCompare'', ''match'', ''matchAll'', ''normalize'', ''padEnd'', ''padStart'',
      ''repeat'', ''replace'', ''replaceAll'', ''search'', ''slice'', ''small'', ''split'',
      ''startsWith'', ''strike'', ''sub'', ''substr'', ''substring'', ''sup'',
      ''toLocaleLowerCase'', ''toLocaleUpperCase'', ''toLowerCase'', ''toUpperCase'',
      ''toWellFormed'', ''trim'', ''trimEnd'', ''trimLeft'', ''trimRight'', ''trimStart'']"

definition number_proto_names :: "string list" where
  "number_proto_names = [''toExponential'', ''toFixed'', ''toPrecision'']"

definition inherited :: "string list \<Rightarrow> string \<Rightarrow> js_error + jsval" where
  "inherited names k =
     (if k \<in> set names \<or> k \<in> set object_proto_names then Inl Unmodelled else Inr JUndefined)"

text \<open>
  The property read \<^verbatim>\<open>cur[seg]\<close>.  It throws on \<^verbatim>\<open>undefined\<close> and \<^verbatim>\<open>null\<close>.  A string
  has its characters under the array-index keys and its \<^verbatim>\<open>length\<close>; an array has its
  \<^verbatim>\<open>length\<close> beside its own properties.
\<close>

fun get_prop :: "heap \<Rightarrow> jsval \<Rightarrow> string \<Rightarrow> js_error + jsval" where
  "get_prop h JUndefined k = Inl TypeError"
| "get_prop h JNull k = Inl TypeError"
| "get_prop h (JBool b) k = inherited [] k"
| "get_prop h (JNum n) k = inherited number_proto_names k"
| "get_prop h (JStr s) k =
     (if k = ''length'' then Inr (JNum (int (length s)))
      else case numeric_index k of
             None \<Rightarrow> inherited string_proto_names k
           | Some i \<Rightarrow> if i < length s then Inr (JStr [s ! i]) else inherited string_proto_names k)"
| "get_prop h (JRef a) k =
     (if a < length h
      then (case h ! a of
              Obj ps \<Rightarrow> (case map_of ps k of Some v \<Rightarrow> Inr v | None \<Rightarrow> inherited [] k)
            | Arr n ps \<Rightarrow>
                if k = ''length'' then Inr (JNum (int n))
                else (case map_of ps k of Some v \<Rightarrow> Inr v | None \<Rightarrow> inherited array_proto_names k))
      else Inl Unmodelled)"

text \<open>
  Assigning to the \<^verbatim>\<open>length\<close> of an array: the value is converted to a number, which must
  be an integer below \<open>2^32\<close>, and the elements from the new length on are deleted.  The
  conversion of a string or of an object is not modelled.
\<close>

fun to_length :: "jsval \<Rightarrow> js_error + nat" where
  "to_length JUndefined = Inl RangeError"
| "to_length JNull = Inr 0"
| "to_length (JBool b) = Inr (if b then 1 else 0)"
| "to_length (JNum i) = (if 0 \<le> i \<and> i < 4294967296 then Inr (nat i) else Inl RangeError)"
| "to_length (JStr s) = Inl Unmodelled"
| "to_length (JRef a) = Inl Unmodelled"

definition below_length :: "nat \<Rightarrow> string \<times> jsval \<Rightarrow> bool" where
  "below_length n p = (case array_index (fst p) of None \<Rightarrow> True | Some i \<Rightarrow> i < n)"

definition grow :: "nat \<Rightarrow> string \<Rightarrow> nat" where
  "grow n k = (case array_index k of None \<Rightarrow> n | Some i \<Rightarrow> max n (Suc i))"

text \<open>
  The assignment \<^verbatim>\<open>cur[seg] = value\<close> of a module, which is strict code: it throws on
  \<^verbatim>\<open>undefined\<close> and \<^verbatim>\<open>null\<close>, and also on a boolean, a number and a string, which
  cannot take a property.  On an object it creates or updates the own property; on an array an
  index at or beyond the length extends the length.
\<close>

definition proto_setter :: "string \<Rightarrow> jsval props \<Rightarrow> bool" where
  "proto_setter k ps = (k = ''__proto__'' \<and> map_of ps k = None)"

fun set_prop :: "heap \<Rightarrow> jsval \<Rightarrow> string \<Rightarrow> jsval \<Rightarrow> js_error + heap" where
  "set_prop h JUndefined k v = Inl TypeError"
| "set_prop h JNull k v = Inl TypeError"
| "set_prop h (JBool b) k v = (if k = ''__proto__'' then Inl Unmodelled else Inl TypeError)"
| "set_prop h (JNum n) k v = (if k = ''__proto__'' then Inl Unmodelled else Inl TypeError)"
| "set_prop h (JStr s) k v = (if k = ''__proto__'' then Inl Unmodelled else Inl TypeError)"
| "set_prop h (JRef a) k v =
     (if a < length h
      then (case h ! a of
              Obj ps \<Rightarrow>
                if proto_setter k ps then Inl Unmodelled
                else Inr (h[a := Obj (props_put k v ps)])
            | Arr n ps \<Rightarrow>
                if k = ''length''
                  then (case to_length v of
                          Inl e \<Rightarrow> Inl e
                        | Inr m \<Rightarrow> Inr (h[a := Arr m (filter (below_length m) ps)]))
                else if proto_setter k ps then Inl Unmodelled
                else Inr (h[a := Arr (grow n k) (props_put k v ps)]))
      else Inl Unmodelled)"

section \<open>Reading and writing along a path (getValueAtPath, setValueAtPath)\<close>

text \<open>A number segment is converted to its decimal string when it is used as a property key.\<close>

fun seg_key :: "seg \<Rightarrow> string" where
  "seg_key (Index n) = decimal n"
| "seg_key (Key s) = s"

text \<open>The \<^verbatim>\<open>for (const seg of path)\<close> loop of \<^verbatim>\<open>getValueAtPath\<close>.\<close>

fun get_loop :: "heap \<Rightarrow> jsval \<Rightarrow> seg list \<Rightarrow> js_error + jsval" where
  "get_loop h cur [] = Inr cur"
| "get_loop h cur (seg # rest) =
     (if cur = JUndefined \<or> cur = JNull then Inr JUndefined
      else (case get_prop h cur (seg_key seg) of
              Inl e \<Rightarrow> Inl e
            | Inr c \<Rightarrow> get_loop h c rest))"

definition getValueAtPath :: "heap \<Rightarrow> jsval \<Rightarrow> seg list option \<Rightarrow> js_error + jsval" where
  "getValueAtPath h obj path =
     (case path of
        None \<Rightarrow> Inr obj
      | Some p \<Rightarrow> if length p = 0 then Inr obj else get_loop h obj p)"

text \<open>
  \<^verbatim>\<open>Array.isArray(obj) ? [...obj] : { ...obj }\<close>.  Spreading an array into an array literal
  gives a dense array of the same length, a hole read as \<^verbatim>\<open>undefined\<close>.  Spreading into an
  object literal copies the own enumerable properties: those of an object, the characters of
  a string, nothing of another primitive.
\<close>

definition is_array :: "heap \<Rightarrow> jsval \<Rightarrow> bool" where
  "is_array h v =
     (case v of
        JRef a \<Rightarrow> a < length h \<and> (case h ! a of Arr n ps \<Rightarrow> True | Obj ps \<Rightarrow> False)
      | _ \<Rightarrow> False)"

definition element :: "jsval props \<Rightarrow> nat \<Rightarrow> string \<times> jsval" where
  "element ps i = (decimal i, case map_of ps (decimal i) of None \<Rightarrow> JUndefined | Some v \<Rightarrow> v)"

definition shallow_copy :: "heap \<Rightarrow> jsval \<Rightarrow> js_error + jsobj" where
  "shallow_copy h obj =
     (case obj of
        JRef a \<Rightarrow>
          if a < length h
          then (case h ! a of
                  Arr n ps \<Rightarrow> Inr (Arr n (map (element ps) [0..<n]))
                | Obj ps \<Rightarrow> Inr (Obj ps))
          else Inl Unmodelled
      | JStr s \<Rightarrow> Inr (Obj (map (\<lambda>i. (decimal i, JStr [s ! i])) [0..<length s]))
      | _ \<Rightarrow> Inr (Obj []))"

text \<open>\<^verbatim>\<open>typeof path[i + 1] === "number" ? [] : {}\<close>\<close>

fun new_container :: "seg \<Rightarrow> jsobj" where
  "new_container (Index n) = Arr 0 []"
| "new_container (Key s) = Obj []"

text \<open>
  The \<^verbatim>\<open>for\<close> loop of \<^verbatim>\<open>setValueAtPath\<close>, on the segments from position \<open>i\<close> on.  The
  last segment is assigned; before any other one a missing container is created and stored,
  and \<open>cur\<close> moves to what is stored under the segment.
\<close>

fun set_loop :: "heap \<Rightarrow> jsval \<Rightarrow> seg list \<Rightarrow> jsval \<Rightarrow> js_error + heap" where
  "set_loop h cur [] v = Inr h"
| "set_loop h cur [seg] v = set_prop h cur (seg_key seg) v"
| "set_loop h cur (seg # nxt # rest) v =
     (case get_prop h cur (seg_key seg) of
        Inl e \<Rightarrow> Inl e
      | Inr x \<Rightarrow>
          (case (if x = JUndefined
                 then set_prop (h @ [new_container nxt]) cur (seg_key seg) (JRef (length h))
                 else Inr h) of
             Inl e \<Rightarrow> Inl e
           | Inr h1 \<Rightarrow>
               (case get_prop h1 cur (seg_key seg) of
                  Inl e \<Rightarrow> Inl e
                | Inr c \<Rightarrow> set_loop h1 c (nxt # rest) v)))"

text \<open>The result is the returned value and the store after the call.\<close>

definition setValueAtPath ::
    "heap \<Rightarrow> jsval \<Rightarrow> seg list option \<Rightarrow> jsval \<Rightarrow> js_error + (jsval \<times> heap)" where
  "setValueAtPath h obj path v =
     (case path of
        None \<Rightarrow> Inr (v, h)
      | Some p \<Rightarrow>
          if length p = 0 then Inr (v, h)
          else (case shallow_copy h obj of
                  Inl e \<Rightarrow> Inl e
                | Inr clone \<Rightarrow>
                    (case set_loop (h @ [clone]) (JRef (length h)) p v of
                       Inl e \<Rightarrow> Inl e
                     | Inr h' \<Rightarrow> Inr (JRef (length h), h'))))"

section \<open>JSON documents in the store\<close>

text \<open>
  A JSON value as a tree.  \<open>repr h v t\<close> says that the value \<open>v\<close> of the store \<open>h\<close> is the
  document \<open>t\<close>: the same scalars, arrays that are dense and carry nothing but their elements,
  objects with the same keys in the same order.  Two values are deep-equal when they are the
  same tree.
\<close>

datatype json = TNull | TBool bool | TNum int | TStr string | TArr "json list"
  | TObj "(string \<times> json) list"

fun repr :: "heap \<Rightarrow> jsval \<Rightarrow> json \<Rightarrow> bool" where
  "repr h v TNull = (v = JNull)"
| "repr h v (TBool b) = (v = JBool b)"
| "repr h v (TNum n) = (v = JNum n)"
| "repr h v (TStr s) = (v = JStr s)"
| "repr h v (TArr ts) =
     (case v of
        JRef a \<Rightarrow>
          a < length h \<and>
          (case h ! a of
             Arr n ps \<Rightarrow>
               n = length ts \<and> int n < 4294967296 \<and> map fst ps = map decimal [0..<n] \<and>
               list_all2 (repr h) (map snd ps) ts
           | Obj ps \<Rightarrow> False)
      | _ \<Rightarrow> False)"
| "repr h v (TObj kts) =
     (case v of
        JRef a \<Rightarrow>
          a < length h \<and>
          (case h ! a of
             Obj ps \<Rightarrow> map fst ps = map fst kts \<and> list_all2 (repr h) (map snd ps) (map snd kts)
           | Arr n ps \<Rightarrow> False)
      | _ \<Rightarrow> False)"

section \<open>The edit session (NodeModal)\<close>

text \<open>
  \<^verbatim>\<open>JSON.parse\<close> returns a tree of new objects.  \<open>alloc\<close> builds a document in the store:
  the members of a container first, then the container.  The properties of an object are
  created in the order of the text, a repeated key keeping its first place and its last value.
\<close>

fun alloc :: "json \<Rightarrow> heap \<Rightarrow> jsval \<times> heap"
  and alloc_list :: "json list \<Rightarrow> heap \<Rightarrow> jsval list \<times> heap" where
  "alloc TNull h = (JNull, h)"
| "alloc (TBool b) h = (JBool b, h)"
| "alloc (TNum n) h = (JNum n, h)"
| "alloc (TStr s) h = (JStr s, h)"
| "alloc (TArr ts) h =
     (case alloc_list ts h of
        (vs, h1) \<Rightarrow>
          (JRef (length h1), h1 @ [Arr (length vs) (zip (map decimal [0..<length vs]) vs)]))"
| "alloc (TObj kts) h =
     (case alloc_list (map snd kts) h of
        (vs, h1) \<Rightarrow>
          (JRef (length h1),
           h1 @ [Obj (foldl (\<lambda>ps kv. props_put (fst kv) (snd kv) ps) [] (zip (map fst kts) vs))]))"
| "alloc_list [] h = ([], h)"
| "alloc_list (t # ts) h =
     (case alloc t h of
        (v, h1) \<Rightarrow> (case alloc_list ts h1 of (vs, h2) \<Rightarrow> (v # vs, h2)))"

text \<open>
  Modelled from the spec: \<^verbatim>\<open>NodeData\<close> of \<^verbatim>\<open>types/graph\<close>, a node of the graph, of which the
  component reads the path, which may be missing, and the rows.
\<close>

record node_data =
  node_path :: "seg list option"
  node_text :: "node_row list"

text \<open>
  What the component takes from the runtime and from the stores it imports, which are not
  among the sources.  \<open>json_parse\<close> is \<^verbatim>\<open>JSON.parse\<close>: the
  document of a text, or the message of the exception it throws (\<open>None\<close> for an exception
  without a message).  \<open>json_stringify\<close> is \<^verbatim>\<open>JSON.stringify(v, null, 2)\<close> on a value other
  than \<^verbatim>\<open>undefined\<close>.  \<open>exception_message\<close> is the message of an exception of the runtime.
  \<open>graph_of\<close> is the list of nodes that \<^verbatim>\<open>setGraph\<close> builds from a text, \<open>None\<close> when it
  throws.
\<close>

record externals =
  json_parse :: "string \<Rightarrow> string option + json"
  json_stringify :: "heap \<Rightarrow> jsval \<Rightarrow> string"
  exception_message :: "js_error \<Rightarrow> string option"
  graph_of :: "string \<Rightarrow> node_data list option"

text \<open>
  The state: the three state variables of the component, the text that \<^verbatim>\<open>getJson()\<close>
  returns, the calls of \<^verbatim>\<open>setContents\<close> made so far (contents and \<^verbatim>\<open>hasChanges\<close>, the latest
  first), and the nodes and the selected node of the graph store.  \<open>editValue\<close> is declared
  a string; \<open>None\<close> is \<^verbatim>\<open>undefined\<close>, which \<^verbatim>\<open>JSON.stringify\<close> returns on \<^verbatim>\<open>undefined\<close>.
\<close>

record app =
  editing :: bool
  editValue :: "string option"
  error_text :: "string option"
  json_text :: string
  setContents_calls :: "(string \<times> bool) list"
  nodes :: "node_data list"
  selectedNode :: "node_data option"

text \<open>\<^verbatim>\<open>nodeData?.path\<close> and \<^verbatim>\<open>nodeData?.text ?? []\<close>\<close>

definition selected_path :: "app \<Rightarrow> seg list option" where
  "selected_path st = (case selectedNode st of None \<Rightarrow> None | Some n \<Rightarrow> node_path n)"

definition selected_rows :: "app \<Rightarrow> node_row list" where
  "selected_rows st = (case selectedNode st of None \<Rightarrow> [] | Some n \<Rightarrow> node_text n)"

definition stringify :: "externals \<Rightarrow> heap \<Rightarrow> jsval \<Rightarrow> string option" where
  "stringify ex h v = (if v = JUndefined then None else Some (json_stringify ex h v))"

text \<open>
  The \<^verbatim>\<open>try\<close> block that the effect, the Edit button and the Cancel button share: the value
  for \<^verbatim>\<open>setEditValue\<close>.  The \<^verbatim>\<open>catch\<close> branch is taken when a step throws.  The outer
  \<open>None\<close> is a step outside the embedding.
\<close>

definition current_text :: "externals \<Rightarrow> app \<Rightarrow> string option option" where
  "current_text ex st =
     (case json_parse ex (json_text st) of
        Inl m \<Rightarrow> Some (Some (normalizeNodeData (selected_rows st)))
      | Inr t \<Rightarrow>
          (case alloc t [] of
             (parsed, h) \<Rightarrow>
               (case getValueAtPath h parsed (selected_path st) of
                  Inl e \<Rightarrow>
                    if e = Unmodelled then None
                    else Some (Some (normalizeNodeData (selected_rows st)))
                | Inr current \<Rightarrow> Some (stringify ex h current))))"

text \<open>The effect that runs when the selected node or the document changes.\<close>

definition onNodeChange :: "externals \<Rightarrow> app \<Rightarrow> app option" where
  "onNodeChange ex st =
     (case current_text ex st of
        None \<Rightarrow> None
      | Some text \<Rightarrow> Some (st\<lparr>editing := False, error_text := None, editValue := text\<rparr>))"

text \<open>The Edit button and the Cancel button.\<close>

definition onEditClick :: "externals \<Rightarrow> app \<Rightarrow> app option" where
  "onEditClick ex st =
     (case current_text ex st of
        None \<Rightarrow> None
      | Some text \<Rightarrow> Some (st\<lparr>editValue := text, editing := True\<rparr>))"

definition onCancelClick :: "externals \<Rightarrow> app \<Rightarrow> app option" where
  "onCancelClick ex st =
     (case current_text ex st of
        None \<Rightarrow> None
      | Some text \<Rightarrow> Some (st\<lparr>editing := False, error_text := None, editValue := text\<rparr>))"

text \<open>
  What the component shows as content: the text area with the edit buffer while editing,
  otherwise the highlighted \<^verbatim>\<open>normalizeNodeData\<close> of the rows of the node.
\<close>

datatype content = Textarea "string option" | CodeHighlight string

definition content_shown :: "app \<Rightarrow> content" where
  "content_shown st =
     (if editing st then Textarea (editValue st)
      else CodeHighlight (normalizeNodeData (selected_rows st)))"

text \<open>
  \<^verbatim>\<open>setError(err?.message ?? "Invalid JSON")\<close> in the \<^verbatim>\<open>catch\<close> branch of \<^verbatim>\<open>handleSave\<close>.
\<close>

definition caught :: "string option \<Rightarrow> app \<Rightarrow> app" where
  "caught message st =
     st\<lparr>error_text := Some (case message of None \<Rightarrow> ''Invalid JSON'' | Some m \<Rightarrow> m)\<rparr>"

text \<open>\<^verbatim>\<open>JSON.parse(editValue)\<close> converts its argument to a string first.\<close>

definition edit_text :: "app \<Rightarrow> string" where
  "edit_text st = (case editValue st of None \<Rightarrow> ''undefined'' | Some s \<Rightarrow> s)"

text \<open>
  The inner \<^verbatim>\<open>try\<close> block of \<^verbatim>\<open>handleSave\<close>: the graph is rebuilt and the node with the
  path of the edited node, if there is one, is selected.  Two paths have the same
  \<^verbatim>\<open>JSON.stringify\<close> text when they are equal.  An exception is ignored.
\<close>

definition reselect :: "externals \<Rightarrow> string \<Rightarrow> app \<Rightarrow> app" where
  "reselect ex text st =
     (case graph_of ex text of
        None \<Rightarrow> st
      | Some ns \<Rightarrow>
          (case selected_path st of
             None \<Rightarrow> st\<lparr>nodes := ns\<rparr>
           | Some p \<Rightarrow>
               (case find (\<lambda>n. node_path n = Some p) ns of
                  None \<Rightarrow> st\<lparr>nodes := ns\<rparr>
                | Some found \<Rightarrow> st\<lparr>nodes := ns, selectedNode := Some found\<rparr>)))"

text \<open>
  \<^verbatim>\<open>handleSave\<close>.  Both texts are parsed before anything is written; an exception of either
  parse or of \<^verbatim>\<open>setValueAtPath\<close> is caught and its message stored.  The result \<open>None\<close> is
  a step outside the embedding.
\<close>

definition handleSave :: "externals \<Rightarrow> app \<Rightarrow> app option" where
  "handleSave ex st0 =
     (let st = st0\<lparr>error_text := None\<rparr> in
      case json_parse ex (edit_text st) of
        Inl m \<Rightarrow> Some (caught m st)
      | Inr tnew \<Rightarrow>
          (case json_parse ex (json_text st) of
             Inl m \<Rightarrow> Some (caught m st)
           | Inr twhole \<Rightarrow>
               (case alloc tnew [] of
                  (parsedNew, h1) \<Rightarrow>
                    (case alloc twhole h1 of
                       (whole, h2) \<Rightarrow>
                         (case setValueAtPath h2 whole (selected_path st) parsedNew of
                            Inl e \<Rightarrow>
                              if e = Unmodelled then None
                              else Some (caught (exception_message ex e) st)
                          | Inr (updated, h3) \<Rightarrow>
                              (case stringify ex h3 updated of
                                 None \<Rightarrow> None
                               | Some text \<Rightarrow>
                                   Some ((reselect ex text
                                      (st\<lparr>setContents_calls := (text, True) # setContents_calls st\<rparr>))
                                      \<lparr>editing := False\<rparr>)))))))"

section \<open>Reference descriptions\<close>

text \<open>The bracket notation of one segment: \<^verbatim>\<open>[n]\<close> for a number, \<^verbatim>\<open>["key"]\<close> for a string.\<close>

fun segment_notation :: "seg \<Rightarrow> string" where
  \<open>segment_notation (Index n) = ''['' @ decimal n @ '']''\<close>
| \<open>segment_notation (Key k) = ''["'' @ k @ ''"]''\<close>

text \<open>A row whose empty key is taken away.\<close>

definition without_empty_key :: "node_row \<Rightarrow> node_row" where
  "without_empty_key r = (if row_key r = Some [] then r\<lparr>row_key := None\<rparr> else r)"

text \<open>The addresses that a value reaches through the properties of the objects of a store.\<close>

fun obj_props :: "jsobj \<Rightarrow> jsval props" where
  "obj_props (Obj ps) = ps"
| "obj_props (Arr n ps) = ps"

inductive reaches :: "heap \<Rightarrow> jsval \<Rightarrow> addr \<Rightarrow> bool" for h :: heap where
  reaches_here: "reaches h (JRef a) a"
| reaches_step:
    "a < length h \<Longrightarrow> (k, w) \<in> set (obj_props (h ! a)) \<Longrightarrow> reaches h w b \<Longrightarrow> reaches h (JRef a) b"

text \<open>
  The member of a document under a sequence of keys that leads through arrays and objects
  only: an element of an array under the decimal string of its index, a member of an object
  under its key.
\<close>

fun tree_get :: "json \<Rightarrow> string list \<Rightarrow> json option" where
  "tree_get t [] = Some t"
| "tree_get (TArr ts) (k # ks) =
     (case map_of (zip (map decimal [0..<length ts]) ts) k of
        None \<Rightarrow> None
      | Some t \<Rightarrow> tree_get t ks)"
| "tree_get (TObj kts) (k # ks) =
     (case map_of kts k of None \<Rightarrow> None | Some t \<Rightarrow> tree_get t ks)"
| "tree_get t (k # ks) = None"

text \<open>Whether an object of the store is an array.\<close>

fun array_obj :: "jsobj \<Rightarrow> bool" where
  "array_obj (Arr n ps) = True"
| "array_obj (Obj ps) = False"





text \<open>\<^verbatim>\<open>typeof seg === "number"\<close>\<close>

fun is_index :: "seg \<Rightarrow> bool" where
  "is_index (Index n) = True"
| "is_index (Key k) = False"

text \<open>
  A value that can be read but has no property under a key: neither an own property (for an
  array also its \<^verbatim>\<open>length\<close>, for a string its characters and its \<^verbatim>\<open>length\<close>) nor a member
  of its prototype objects.
\<close>

fun lacks :: "heap \<Rightarrow> jsval \<Rightarrow> string \<Rightarrow> bool" where
  "lacks h (JRef a) k =
     (a < length h \<and>
      (case h ! a of
         Obj ps \<Rightarrow> map_of ps k = None \<and> k \<notin> set object_proto_names
       | Arr n ps \<Rightarrow>
           k \<noteq> ''length'' \<and> map_of ps k = None \<and> k \<notin> set array_proto_names \<and>
           k \<notin> set object_proto_names))"
| "lacks h (JStr s) k =
     (k \<noteq> ''length'' \<and> (case numeric_index k of None \<Rightarrow> True | Some i \<Rightarrow> length s \<le> i) \<and>
      k \<notin> set string_proto_names \<and> k \<notin> set object_proto_names)"
| "lacks h (JNum n) k = (k \<notin> set number_proto_names \<and> k \<notin> set object_proto_names)"
| "lacks h (JBool b) k = (k \<notin> set object_proto_names)"
| "lacks h JNull k = False"
| "lacks h JUndefined k = False"

text \<open>
  The description of \<^verbatim>\<open>normalizeNodeData\<close> by cases.  A row enters the mapping when its type
  is not a container and it has a key; the mapping from key to value keeps the rows in their
  order, a repeated key keeping its first place and its last value.  \<open>normalize_spec\<close> renders
  a single row without key as JSON text; \<open>normalize_amended\<close> inserts it as the template
  literal does, and takes an empty key for no key.
\<close>

definition keyed_scalar :: "node_row \<Rightarrow> bool" where
  "keyed_scalar r = (row_type r \<noteq> ''array'' \<and> row_type r \<noteq> ''object'' \<and> \<not> falsy_key (row_key r))"

definition row_entry :: "scalar props \<Rightarrow> node_row \<Rightarrow> scalar props" where
  "row_entry m r = (case row_key r of None \<Rightarrow> m | Some k \<Rightarrow> AList.update k (row_value r) m)"

definition row_mapping :: "node_row list \<Rightarrow> scalar props" where
  "row_mapping rows = foldl row_entry [] (filter keyed_scalar rows)"

definition normalize_spec :: "node_row list \<Rightarrow> string" where
  "normalize_spec rows =
     (if rows = [] then ''{}''
      else if length rows = 1 \<and> row_key (hd rows) = None then json_scalar (row_value (hd rows))
      else stringify_flat (row_mapping rows))"

definition normalize_amended :: "node_row list \<Rightarrow> string" where
  "normalize_amended rows =
     (if rows = [] then ''{}''
      else if length rows = 1 \<and> falsy_key (row_key (hd rows)) then to_string (row_value (hd rows))
      else stringify_flat (row_mapping rows))"

text \<open>
  A key that an object keeps in the order of its creation: not an array index, which is
  enumerated before the other keys, and not \<^verbatim>\<open>__proto__\<close>.
\<close>

definition ordinary_key :: "node_row \<Rightarrow> bool" where
  "ordinary_key r =
     (case row_key r of
        None \<Rightarrow> True
      | Some k \<Rightarrow> array_index k = None \<and> k \<noteq> ''__proto__'')"

text \<open>
  Surroundings for the examples: \<^verbatim>\<open>JSON.parse\<close> on the texts \<^verbatim>\<open>{}\<close> and \<^verbatim>\<open>1\<close>, which are
  documents, and on any other text, taken as malformed, with a message that stands for the
  one of the runtime.
\<close>

definition sample_externals :: externals where
  "sample_externals =
     \<lparr>json_parse =
        (\<lambda>s. if s = ''{}'' then Inr (TObj [])
             else if s = ''1'' then Inr (TNum 1)
             else Inl (Some ''Unexpected token'')),
      json_stringify = (\<lambda>h v. ''''),
      exception_message = (\<lambda>e. None),
      graph_of = (\<lambda>s. None)\<rparr>"

text \<open>
  A session for the examples: over the live document text \<open>doc\<close> a node with the path
  \<^verbatim>\<open>["a"]\<close> and the one row \<^verbatim>\<open>a: 1\<close> is selected, while an edit is open and an error is
  shown.
\<close>

definition stale_node :: node_data where
  "stale_node =
     \<lparr>node_path = Some [Key ''a''],
      node_text = [\<lparr>row_key = Some ''a'', row_value = SNum 1, row_type = ''number''\<rparr>]\<rparr>"

definition stale_session :: "string \<Rightarrow> app" where
  "stale_session doc =
     \<lparr>editing = True, editValue = Some ''x'', error_text = Some ''e'', json_text = doc,
      setContents_calls = [], nodes = [], selectedNode = Some stale_node\<rparr>"

text \<open>
  A segment under which a new container has nothing: a number, or a string that is not the
  name of a member of \<^verbatim>\<open>Object.prototype\<close>.
\<close>

fun plain_seg :: "seg \<Rightarrow> bool" where
  "plain_seg (Index n) = True"
| "plain_seg (Key k) = (k \<notin> set object_proto_names)"

section \<open>Decimal strings and array indices\<close>

lemma digit_char_digit: "d < 10 \<Longrightarrow> is_digit (digit_char d)"
proof -
  assume "d < 10"
  then have "d \<in> {0,1,2,3,4,5,6,7,8,9}" by auto
  then show ?thesis by (auto simp: is_digit_def digit_char_def)
qed

lemma digit_val_digit_char: "d < 10 \<Longrightarrow> digit_val (digit_char d) = d"
proof -
  assume "d < 10"
  then have "d \<in> {0,1,2,3,4,5,6,7,8,9}" by auto
  then show ?thesis by (auto simp: digit_val_def digit_char_def)
qed

lemma digit_char_zero: "d < 10 \<Longrightarrow> digit_char d = CHR ''0'' \<Longrightarrow> d = 0"
proof -
  assume "d < 10"
  then have "d \<in> {0,1,2,3,4,5,6,7,8,9}" by auto
  then show "digit_char d = CHR ''0'' \<Longrightarrow> d = 0" by (auto simp: digit_char_def)
qed

lemma decimal_nonempty: "decimal n \<noteq> []"
  by (subst decimal.simps) simp

lemma decimal_digits: "list_all is_digit (decimal n)"
  by (induction n rule: decimal.induct) (subst decimal.simps, simp add: digit_char_digit)

lemma str_value_snoc: "str_value (s @ [c]) = 10 * str_value s + digit_val c"
  by (simp add: str_value_def)

lemma str_value_decimal: "str_value (decimal n) = n"
proof (induction n rule: decimal.induct)
  case (1 n)
  show ?case
  proof (cases "n < 10")
    case True
    then show ?thesis
      by (subst decimal.simps) (simp add: str_value_def digit_val_digit_char)
  next
    case False
    with 1 have "str_value (decimal (n div 10)) = n div 10" by simp
    with False show ?thesis
      by (subst decimal.simps) (simp add: str_value_snoc digit_val_digit_char)
  qed
qed

lemma hd_decimal_zero: "hd (decimal n) = CHR ''0'' \<Longrightarrow> n = 0"
proof (induction n rule: decimal.induct)
  case (1 n)
  show ?case
  proof (cases "n < 10")
    case True
    with "1.prems" have "digit_char n = CHR ''0''"
      by (subst (asm) decimal.simps) simp
    with True show ?thesis by (rule digit_char_zero)
  next
    case False
    with "1.prems" have "hd (decimal (n div 10)) = CHR ''0''"
      by (subst (asm) decimal.simps) (simp add: decimal_nonempty)
    with 1 False have "n div 10 = 0" by simp
    with False show ?thesis by simp
  qed
qed

lemma canonical_decimal: "canonical (decimal n)"
proof (cases "decimal n")
  case Nil
  then show ?thesis by (simp add: decimal_nonempty)
next
  case (Cons c cs)
  have digits: "list_all is_digit (decimal n)" by (rule decimal_digits)
  have "cs = []" if "c = CHR ''0''"
  proof -
    from that Cons have "hd (decimal n) = CHR ''0''" by simp
    then have "n = 0" by (rule hd_decimal_zero)
    then have "decimal n = [digit_char 0]" by (subst decimal.simps) simp
    with Cons show ?thesis by simp
  qed
  with Cons digits show ?thesis by (auto simp: canonical_def)
qed

lemma numeric_index_decimal: "numeric_index (decimal n) = Some n"
  by (simp add: numeric_index_def canonical_decimal str_value_decimal)

lemma array_index_decimal: "int n < 4294967295 \<Longrightarrow> array_index (decimal n) = Some n"
  by (simp add: array_index_def numeric_index_decimal)

lemma decimal_inj: "(decimal m = decimal n) = (m = n)"
proof
  assume "decimal m = decimal n"
  then have "numeric_index (decimal m) = numeric_index (decimal n)" by simp
  then show "m = n" by (simp only: numeric_index_decimal option.inject)
qed simp

lemma decimal_not_length: "decimal n \<noteq> ''length''"
  using decimal_digits [of n] by (auto simp: is_digit_def)

lemma distinct_decimal: "distinct (map decimal [0..<n])"
  by (simp add: distinct_map inj_on_def decimal_inj)

section \<open>Property lists, reads and assignments\<close>

lemma map_of_insert_new:
  "map_of (insert_new k v ps) k' = (if k' = k then Some v else map_of ps k')" if "map_of ps k = None"
  using that by (induction ps) (auto split: if_splits)

lemma map_of_props_put: "map_of (props_put k v ps) = (map_of ps)(k \<mapsto> v)"
proof (cases "map_of ps k")
  case None
  then show ?thesis by (auto simp: props_put_def map_of_insert_new)
next
  case (Some old)
  then show ?thesis by (simp add: props_put_def update_conv')
qed

lemma props_put_same: "map_of ps k = Some v \<Longrightarrow> props_put k v ps = ps"
  by (simp add: props_put_def update_triv)

lemma set_insert_new: "set (insert_new k v ps) = insert (k, v) (set ps)"
  by (induction ps) auto

lemma snd_props_put: "(k', w) \<in> set (props_put k v ps) \<Longrightarrow> w = v \<or> (k', w) \<in> set ps"
proof (cases "map_of ps k")
  case None
  assume "(k', w) \<in> set (props_put k v ps)"
  with None show ?thesis by (auto simp: props_put_def set_insert_new)
next
  case (Some old)
  assume "(k', w) \<in> set (props_put k v ps)"
  with Some have "(k', w) \<in> set (AList.update k v ps)" by (simp add: props_put_def)
  then show ?thesis by (induction ps) (auto split: if_splits)
qed


lemma inherited_cases: "inherited ns k = Inr y \<Longrightarrow> y = JUndefined"
  by (auto simp: inherited_def split: if_splits)

lemma set_prop_ref:
  assumes "set_prop h cur k v = Inr h'"
  obtains a ob where "cur = JRef a" "a < length h" "h' = h[a := ob]"
    "(\<exists>ps. h ! a = Obj ps \<and> (\<exists>ps'. ob = Obj ps')) \<or> (\<exists>n ps. h ! a = Arr n ps \<and> (\<exists>n' ps'. ob = Arr n' ps'))"
  using assms
  by (cases cur) (auto split: if_splits jsobj.splits sum.splits)

lemma set_prop_length: "set_prop h cur k v = Inr h' \<Longrightarrow> length h' = length h"
  by (erule set_prop_ref) simp

lemma get_after_set:
  assumes "set_prop h cur k v = Inr h'" and "k \<noteq> ''length'' \<or> \<not> is_array h cur"
  shows "get_prop h' cur k = Inr v"
  using assms
  by (cases cur)
     (auto simp: is_array_def map_of_props_put split: if_splits jsobj.splits sum.splits)

lemma get_prop_reaches:
  assumes "get_prop h x k = Inr y" and "reaches h y b"
  shows "reaches h x b"
proof (cases x)
  case (JRef a)
  with assms(1) have a: "a < length h" by (auto split: if_splits)
  from assms(2) obtain c where y: "y = JRef c" by (cases rule: reaches.cases) auto
  with assms(1) JRef a have "(k, y) \<in> set (obj_props (h ! a))"
    by (auto split: if_splits jsobj.splits option.splits dest: map_of_SomeD inherited_cases)
  with a assms(2) JRef show ?thesis by (auto intro: reaches_step)
next
  case (JStr s)
  with assms show ?thesis
    by (auto split: if_splits option.splits dest: inherited_cases elim: reaches.cases)
qed (use assms in \<open>auto dest: inherited_cases elim: reaches.cases\<close>)

lemma get_prop_frame:
  assumes "length h \<le> length h'" and "\<And>a. cur = JRef a \<Longrightarrow> a < length h \<Longrightarrow> h' ! a = h ! a"
    and "get_prop h cur k = Inr y"
  shows "get_prop h' cur k = Inr y"
  using assms by (cases cur) (auto split: if_splits)

section \<open>Documents in the store\<close>

lemma repr_not_undefined: "\<not> repr h JUndefined t"
  by (cases t) auto

lemma repr_ref_cases:
  assumes "repr h (JRef a) t"
  obtains ts n ps where "t = TArr ts" "a < length h" "h ! a = Arr n ps" "n = length ts"
      "int n < 4294967296" "map fst ps = map decimal [0..<n]" "list_all2 (repr h) (map snd ps) ts"
  | kts ps where "t = TObj kts" "a < length h" "h ! a = Obj ps" "map fst ps = map fst kts"
      "list_all2 (repr h) (map snd ps) (map snd kts)"
  using assms by (cases t) (auto split: jsobj.splits)

lemma list_all2_in_set:
  "list_all2 P xs ys \<Longrightarrow> x \<in> set xs \<Longrightarrow> \<exists>y \<in> set ys. P x y"
  by (metis in_set_conv_nth list_all2_conv_all_nth)

lemma size_in_TArr: "t' \<in> set ts \<Longrightarrow> size t' < size (TArr ts)"
  by (induction ts) auto

lemma size_in_TObj: "(k, t') \<in> set kts \<Longrightarrow> size t' < size (TObj kts)"
  by (induction kts) auto

lemma repr_prop:
  assumes "repr h (JRef a) t" and "(k, w) \<in> set (obj_props (h ! a))"
  shows "\<exists>t'. repr h w t' \<and> size t' < size t"
  using assms(1)
proof (cases rule: repr_ref_cases)
  case (1 ts n ps)
  with assms(2) have "w \<in> set (map snd ps)" by force
  with 1 obtain t' where "t' \<in> set ts" "repr h w t'" by (blast dest: list_all2_in_set)
  with 1 show ?thesis by (blast intro: size_in_TArr)
next
  case (2 kts ps)
  with assms(2) have "w \<in> set (map snd ps)" by force
  with 2 obtain t' where "t' \<in> set (map snd kts)" "repr h w t'" by (blast dest: list_all2_in_set)
  then obtain k' where "(k', t') \<in> set kts" by auto
  with 2 \<open>repr h w t'\<close> show ?thesis by (blast intro: size_in_TObj)
qed

lemma repr_get:
  assumes "repr h x t" and "get_prop h x k = Inr y" and "y \<noteq> JUndefined"
  shows "\<exists>t'. repr h y t'"
proof (cases x)
  case (JRef a)
  show ?thesis
  proof (cases "(k, y) \<in> set (obj_props (h ! a))")
    case True
    with assms(1) JRef show ?thesis by (blast dest: repr_prop)
  next
    case False
    with assms(2,3) JRef obtain n where "y = JNum n"
      by (auto split: if_splits jsobj.splits option.splits dest: map_of_SomeD inherited_cases)
    then have "repr h y (TNum n)" by simp
    then show ?thesis ..
  qed
next
  case (JStr s)
  with assms(2,3) have "(\<exists>n. y = JNum n) \<or> (\<exists>c. y = JStr c)"
    by (auto split: if_splits option.splits dest: inherited_cases)
  then have "(\<exists>n. repr h y (TNum n)) \<or> (\<exists>c. repr h y (TStr c))" by auto
  then show ?thesis by blast
qed (use assms in \<open>auto dest: inherited_cases\<close>)


lemma reaches_repr:
  assumes "reaches h v b"
  shows "repr h v t \<Longrightarrow> \<exists>tb. repr h (JRef b) tb \<and> size tb \<le> size t"
  using assms
proof (induction arbitrary: t rule: reaches.induct)
  case (reaches_here a)
  then show ?case by auto
next
  case (reaches_step a k w b)
  from repr_prop [OF reaches_step.prems reaches_step.hyps(2)]
  obtain t' where "repr h w t'" "size t' < size t" by blast
  with reaches_step.IH [of t'] show ?case by force
qed

lemma list_all2_unique:
  assumes "list_all2 P xs ys" and "list_all2 P xs zs"
    and "\<And>x y z. y \<in> set ys \<Longrightarrow> P x y \<Longrightarrow> P x z \<Longrightarrow> y = z"
  shows "ys = zs"
  using assms
proof (induction xs ys arbitrary: zs rule: list_all2_induct)
  case Nil
  then show ?case by simp
next
  case (Cons x xs y ys)
  from Cons.prems(1) obtain z zs' where zs: "zs = z # zs'" "P x z" "list_all2 P xs zs'"
    by (cases zs) auto
  have "y = z" by (rule Cons.prems(2) [of y x z]) (simp_all add: Cons.hyps zs)
  moreover have "ys = zs'" by (rule Cons.IH [OF zs(3)]) (rule Cons.prems(2), simp_all)
  ultimately show ?case using zs by simp
qed

lemma repr_unique: "repr h v t \<Longrightarrow> repr h v t' \<Longrightarrow> t = t'"
proof (induction t arbitrary: v t')
  case TNull
  then show ?case by (cases t') auto
next
  case (TBool b)
  then show ?case by (cases t') auto
next
  case (TNum n)
  then show ?case by (cases t') auto
next
  case (TStr s)
  then show ?case by (cases t') auto
next
  case (TArr ts)
  from TArr.prems(1) obtain a where v: "v = JRef a" by (cases v) auto
  with TArr.prems(1) obtain n ps where a: "h ! a = Arr n ps" "list_all2 (repr h) (map snd ps) ts"
    by (cases "h ! a") auto
  with TArr.prems(2) v obtain ts' where t': "t' = TArr ts'" "list_all2 (repr h) (map snd ps) ts'"
    by (cases t') auto
  from a(2) t'(2) have "ts = ts'"
  proof (rule list_all2_unique)
    fix x y z
    assume "y \<in> set ts" "repr h x y" "repr h x z"
    then show "y = z" by (rule TArr.IH)
  qed
  with t' show ?case by simp
next
  case (TObj kts)
  from TObj.prems(1) obtain a where v: "v = JRef a" by (cases v) auto
  with TObj.prems(1) obtain ps where a: "h ! a = Obj ps" "map fst ps = map fst kts"
      "list_all2 (repr h) (map snd ps) (map snd kts)"
    by (cases "h ! a") auto
  with TObj.prems(2) v obtain kts' where t': "t' = TObj kts'" "map fst ps = map fst kts'"
      "list_all2 (repr h) (map snd ps) (map snd kts')"
    by (cases t') auto
  from a(3) t'(3) have "map snd kts = map snd kts'"
  proof (rule list_all2_unique)
    fix x y z
    assume y: "y \<in> set (map snd kts)" and xy: "repr h x y" and xz: "repr h x z"
    from y obtain p where p: "p \<in> set kts" "y \<in> Basic_BNFs.snds p"
      by (auto simp: snds.simps)
    from p xy xz show "y = z" by (rule TObj.IH)
  qed
  moreover from a(2) t'(2) have "map fst kts = map fst kts'" by simp
  ultimately have "kts = kts'" by (simp add: pair_list_eqI)
  with t' show ?case by simp
qed

lemma repr_acyclic:
  assumes "repr h (JRef a) t" and "(k, w) \<in> set (obj_props (h ! a))"
  shows "\<not> reaches h w a"
proof
  assume r: "reaches h w a"
  from repr_prop [OF assms] obtain t' where t': "repr h w t'" "size t' < size t" by blast
  from reaches_repr [OF r t'(1)] obtain ta where "repr h (JRef a) ta" "size ta \<le> size t'" by blast
  with assms(1) t'(2) show False by (auto dest: repr_unique)
qed

lemma repr_append: "repr h v t \<Longrightarrow> repr (h @ hs) v t"
proof (induction t arbitrary: v)
  case (TArr ts)
  then obtain a where v: "v = JRef a" by (cases v) auto
  with TArr.prems have a: "a < length h" by simp
  have "list_all2 (repr h) ws ts \<Longrightarrow> list_all2 (repr (h @ hs)) ws ts" for ws
    by (erule list.rel_mono_strong) (rule TArr.IH)
  with TArr.prems v a show ?case by (auto simp: nth_append split: jsobj.splits)
next
  case (TObj kts)
  then obtain a where v: "v = JRef a" by (cases v) auto
  with TObj.prems have a: "a < length h" by simp
  have "list_all2 (repr h) ws (map snd kts) \<Longrightarrow> list_all2 (repr (h @ hs)) ws (map snd kts)" for ws
  proof (erule list.rel_mono_strong)
    fix w t
    assume "t \<in> set (map snd kts)" "repr h w t"
    then obtain k where "(k, t) \<in> set kts" by auto
    with \<open>repr h w t\<close> show "repr (h @ hs) w t" by (auto intro: TObj.IH simp: snds.simps)
  qed
  with TObj.prems v a show ?case by (auto simp: nth_append split: jsobj.splits)
qed auto

section \<open>What the loop of setValueAtPath changes\<close>

lemma reaches_leaf: "obj_props (h ! a) = [] \<Longrightarrow> reaches h (JRef a) b \<Longrightarrow> b = a"
  by (erule reaches.cases) auto

lemma get_prop_member:
  assumes "get_prop h (JRef a) k = Inr (JRef c)"
  shows "a < length h \<and> (k, JRef c) \<in> set (obj_props (h ! a))"
  using assms
  by (auto split: if_splits jsobj.splits option.splits dest: map_of_SomeD inherited_cases)

lemma repr_get_acyclic:
  assumes "repr h (JRef a) t" and "get_prop h (JRef a) k = Inr y"
  shows "\<not> reaches h y a"
proof
  assume r: "reaches h y a"
  then obtain c where "y = JRef c" by (cases rule: reaches.cases) auto
  with assms(2) have "(k, y) \<in> set (obj_props (h ! a))" by (blast dest: get_prop_member)
  with assms(1) r show False by (blast dest: repr_acyclic)
qed

lemma get_undefined_not_length:
  "get_prop h x k = Inr JUndefined \<Longrightarrow> k \<noteq> ''length'' \<or> \<not> is_array h x"
  by (cases x) (auto simp: is_array_def split: if_splits jsobj.splits)

lemma get_prop_bound: "get_prop h (JRef a) k = Inr y \<Longrightarrow> a < length h"
  by (auto split: if_splits)

lemma is_array_append: "get_prop h x k = Inr y \<Longrightarrow> is_array (h @ hs) x = is_array h x"
  by (cases x) (auto simp: is_array_def nth_append split: if_splits)

lemma set_loop_stepE:
  assumes "set_loop h x (seg # nxt # rest) v = Inr h'"
  obtains (create) h1 where "get_prop h x (seg_key seg) = Inr JUndefined"
      "set_prop (h @ [new_container nxt]) x (seg_key seg) (JRef (length h)) = Inr h1"
      "get_prop h1 x (seg_key seg) = Inr (JRef (length h))"
      "set_loop h1 (JRef (length h)) (nxt # rest) v = Inr h'"
  | (descend) y where "get_prop h x (seg_key seg) = Inr y" "y \<noteq> JUndefined"
      "set_loop h y (nxt # rest) v = Inr h'"
proof -
  from assms obtain y where y: "get_prop h x (seg_key seg) = Inr y"
    by (auto split: sum.splits)
  show thesis
  proof (cases "y = JUndefined")
    case True
    with assms y obtain h1 where
      h1: "set_prop (h @ [new_container nxt]) x (seg_key seg) (JRef (length h)) = Inr h1"
      by (auto split: sum.splits)
    from y True have "seg_key seg \<noteq> ''length'' \<or> \<not> is_array (h @ [new_container nxt]) x"
      using get_undefined_not_length [of h x "seg_key seg"] is_array_append [of h x "seg_key seg" y]
      by simp
    with h1 have g: "get_prop h1 x (seg_key seg) = Inr (JRef (length h))"
      by (rule get_after_set)
    with assms y True h1 have "set_loop h1 (JRef (length h)) (nxt # rest) v = Inr h'"
      by simp
    with y True h1 g show thesis by (auto intro: create)
  next
    case False
    with assms y have "set_loop h y (nxt # rest) v = Inr h'" by simp
    with y False show thesis by (rule descend)
  qed
qed

lemma set_prop_created:
  assumes "get_prop h x k = Inr y" and "set_prop (h @ [ob]) x k w = Inr h1"
  obtains a ob' where "x = JRef a" "a < length h" "h1 = (h @ [ob])[a := ob']"
    "array_obj ob' = array_obj (h ! a)" "length h1 = Suc (length h)" "h1 ! length h = ob"
proof -
  from assms(2) obtain a ob' where a: "x = JRef a" "a < length (h @ [ob])" "h1 = (h @ [ob])[a := ob']"
      "(\<exists>ps. (h @ [ob]) ! a = Obj ps \<and> (\<exists>ps'. ob' = Obj ps')) \<or>
       (\<exists>n ps. (h @ [ob]) ! a = Arr n ps \<and> (\<exists>n' ps'. ob' = Arr n' ps'))"
    by (rule set_prop_ref)
  from assms(1) a(1) have less: "a < length h" by (blast dest: get_prop_bound)
  with a(4) have kind: "array_obj ob' = array_obj (h ! a)" by (auto simp: nth_append)
  from a(3) less have len: "length h1 = Suc (length h)" and top: "h1 ! length h = ob"
    by simp_all
  show thesis by (rule that [OF a(1) less a(3) kind len top])
qed

lemma set_loop_frame:
  assumes "set_loop h x p v = Inr h'"
  shows "length h \<le> length h' \<and>
         (\<forall>a < length h. (\<not> reaches h x a \<longrightarrow> h' ! a = h ! a) \<and>
                          array_obj (h' ! a) = array_obj (h ! a))"
  using assms
proof (induction p arbitrary: h x)
  case Nil
  then show ?case by simp
next
  case (Cons seg p)
  show ?case
  proof (cases p)
    case Nil
    with Cons.prems have "set_prop h x (seg_key seg) v = Inr h'" by simp
    then obtain a ob where a: "x = JRef a" "a < length h" "h' = h[a := ob]"
      "(\<exists>ps. h ! a = Obj ps \<and> (\<exists>ps'. ob = Obj ps')) \<or> (\<exists>n ps. h ! a = Arr n ps \<and> (\<exists>n' ps'. ob = Arr n' ps'))"
      by (rule set_prop_ref)
    have "reaches h x a" unfolding a(1) by (rule reaches_here)
    with a show ?thesis by (auto simp: nth_list_update)
  next
    case (Cons nxt rest)
    with Cons.prems have run: "set_loop h x (seg # nxt # rest) v = Inr h'" by simp
    from run show ?thesis
    proof (cases rule: set_loop_stepE)
      case (create h1)
      from create(1,2) obtain a ob' where a: "x = JRef a" "a < length h"
          "h1 = (h @ [new_container nxt])[a := ob']" "array_obj ob' = array_obj (h ! a)"
          "length h1 = Suc (length h)" "h1 ! length h = new_container nxt"
        by (rule set_prop_created)
      from create(4) Cons Cons.IH [of h1 "JRef (length h)"]
      have ih: "length h1 \<le> length h'"
        "\<And>b. b < length h1 \<Longrightarrow> \<not> reaches h1 (JRef (length h)) b \<Longrightarrow> h' ! b = h1 ! b"
        "\<And>b. b < length h1 \<Longrightarrow> array_obj (h' ! b) = array_obj (h1 ! b)"
        by auto
      have leaf: "obj_props (h1 ! length h) = []" by (cases nxt) (simp_all add: a(6))
      have xa: "reaches h x a" unfolding a(1) by (rule reaches_here)
      have "h' ! b = h ! b" if "b < length h" "\<not> reaches h x b" for b
      proof -
        from that xa have ne: "b \<noteq> a" by auto
        from that have "\<not> reaches h1 (JRef (length h)) b"
          using reaches_leaf [OF leaf] by auto
        with that a(5) have "h' ! b = h1 ! b" by (simp add: ih(2))
        with ne that a(3) show ?thesis by (simp add: nth_append)
      qed
      moreover have "array_obj (h' ! b) = array_obj (h ! b)" if "b < length h" for b
      proof -
        from that a(5) have "array_obj (h' ! b) = array_obj (h1 ! b)" by (simp add: ih(3))
        with that a(2,3,4) show ?thesis by (cases "b = a") (simp_all add: nth_append)
      qed
      ultimately show ?thesis using ih(1) a(5) by auto
    next
      case (descend y)
      from descend(3) Cons Cons.IH [of h y]
      have ih: "length h \<le> length h'"
        "\<And>b. b < length h \<Longrightarrow> \<not> reaches h y b \<Longrightarrow> h' ! b = h ! b"
        "\<And>b. b < length h \<Longrightarrow> array_obj (h' ! b) = array_obj (h ! b)"
        by auto
      have "h' ! b = h ! b" if "b < length h" "\<not> reaches h x b" for b
      proof -
        from that(2) descend(1) have "\<not> reaches h y b" by (blast dest: get_prop_reaches)
        with that(1) show ?thesis by (rule ih(2))
      qed
      with ih show ?thesis by auto
    qed
  qed
qed

section \<open>Properties of jsonPathToString\<close>

lemma join_brackets:
  "ss \<noteq> [] \<Longrightarrow> ''['' @ join '']['' ss @ '']'' = concat (map (\<lambda>s. ''['' @ s @ '']'') ss)"
  by (induction "'']['' :: string" ss rule: join.induct) auto

lemma segment_notation_text: "segment_notation s = ''['' @ seg_text s @ '']''"
  by (cases s) (simp_all add: seg_text_def)

text \<open>
  Claim C9.  \<^verbatim>\<open>jsonPathToString\<close> is a total function of the path.  A missing and an empty
  path give \<^verbatim>\<open>$\<close>; every other path gives \<^verbatim>\<open>$\<close> followed by one bracket per segment,
  \<^verbatim>\<open>[n]\<close> for a number and \<^verbatim>\<open>["key"]\<close> for a string, the key copied without escaping.
  So \<^verbatim>\<open>["a","b"]\<close> gives \<^verbatim>\<open>$["a"]["b"]\<close> and \<^verbatim>\<open>["items",2]\<close> gives \<^verbatim>\<open>$["items"][2]\<close>.
\<close>

theorem jsonPathToString_format:
  \<open>jsonPathToString None = ''$'' \<and>
   jsonPathToString (Some []) = ''$'' \<and>
   jsonPathToString (Some p) = ''$'' @ concat (map segment_notation p) \<and>
   jsonPathToString (Some [Key ''a'', Key ''b'']) = ''$["a"]["b"]'' \<and>
   jsonPathToString (Some [Key ''items'', Index 2]) = ''$["items"][2]''\<close>
proof -
  have general: "jsonPathToString (Some q) = ''$'' @ concat (map segment_notation q)" for q
  proof (cases q)
    case Nil
    then show ?thesis by (simp add: jsonPathToString_def)
  next
    case (Cons s ss)
    then have "map seg_text q \<noteq> []" by simp
    from join_brackets [OF this]
    have "''['' @ join '']['' (map seg_text q) @ '']'' = concat (map segment_notation q)"
      by (simp add: segment_notation_text [abs_def] comp_def)
    with Cons show ?thesis by (simp add: jsonPathToString_def)
  qed
  have two: "decimal 2 = ''2''" by (simp add: decimal.simps digit_char_def)
  show ?thesis
    using general [of p] general [of "[Key ''a'', Key ''b'']"] general [of "[Key ''items'', Index 2]"]
    by (simp add: jsonPathToString_def two)
qed

section \<open>Properties of normalizeNodeData\<close>

lemma add_row_empty_key: "row_key r = Some [] \<Longrightarrow> add_row ob r = ob"
  by (simp add: add_row_def)

lemma add_row_without_empty_key: "add_row ob (without_empty_key r) = add_row ob r"
  by (simp add: add_row_def without_empty_key_def)

lemma foldl_add_row_map: "foldl add_row ob (map without_empty_key rows) = foldl add_row ob rows"
  by (induction rows arbitrary: ob) (simp_all add: add_row_without_empty_key)

lemma foldl_add_row_filter:
  "foldl add_row ob (filter (\<lambda>r. row_key r \<noteq> Some []) rows) = foldl add_row ob rows"
  by (induction rows arbitrary: ob) (simp_all add: add_row_empty_key)

lemma falsy_without_empty_key: "falsy_key (row_key (without_empty_key r)) = falsy_key (row_key r)"
  by (simp add: without_empty_key_def falsy_key_def)

lemma value_without_empty_key: "row_value (without_empty_key r) = row_value r"
  by (simp add: without_empty_key_def)

text \<open>
  Claim C10.  \<^verbatim>\<open>normalizeNodeData\<close> treats a row whose key is the empty string like a row
  without a key.  A single row with the key \<^verbatim>\<open>""\<close> is displayed as its value alone;
  replacing every empty key by no key changes no result; and the object built from several
  rows is the object built from the rows whose key is not empty, so that such a row is left
  out of it.
\<close>

theorem normalizeNodeData_empty_key:
  \<open>normalizeNodeData [\<lparr>row_key = Some '''', row_value = v, row_type = ty\<rparr>] = to_string v \<and>
   normalizeNodeData (map without_empty_key rows) = normalizeNodeData rows \<and>
   build_obj rows = build_obj (filter (\<lambda>r. row_key r \<noteq> Some '''') rows) \<and>
   normalizeNodeData
     [\<lparr>row_key = Some '''', row_value = SNum 1, row_type = ''number''\<rparr>,
      \<lparr>row_key = Some ''a'', row_value = SNum 2, row_type = ''number''\<rparr>]
     = [CHR ''{'', CHR 0x0A] @ ''  "a": 2'' @ [CHR 0x0A, CHR ''}'']\<close>
proof -
  have a: "normalizeNodeData [\<lparr>row_key = Some '''', row_value = v, row_type = ty\<rparr>] = to_string v"
    by (simp add: normalizeNodeData_def falsy_key_def)
  have b: "normalizeNodeData (map without_empty_key rows) = normalizeNodeData rows"
  proof (cases rows)
    case Nil
    then show ?thesis by simp
  next
    case (Cons r rs)
    then show ?thesis
      by (simp add: normalizeNodeData_def build_obj_def foldl_add_row_map
          falsy_without_empty_key value_without_empty_key add_row_without_empty_key)
  qed
  have c: "build_obj rows = build_obj (filter (\<lambda>r. row_key r \<noteq> Some '''') rows)"
    by (simp add: build_obj_def foldl_add_row_filter)
  have d: \<open>normalizeNodeData
     [\<lparr>row_key = Some '''', row_value = SNum 1, row_type = ''number''\<rparr>,
      \<lparr>row_key = Some ''a'', row_value = SNum 2, row_type = ''number''\<rparr>]
     = [CHR ''{'', CHR 0x0A] @ ''  "a": 2'' @ [CHR 0x0A, CHR ''}'']\<close>
    by code_simp
  from a b c d show ?thesis by blast
qed

lemma insert_new_last: "array_index k = None \<Longrightarrow> insert_new k v ps = ps @ [(k, v)]"
  by (induction ps) (simp_all add: key_before_def)

lemma update_last: "map_of ps k = None \<Longrightarrow> AList.update k v ps = ps @ [(k, v)]"
  by (induction ps) (auto split: if_splits)

lemma props_put_update: "array_index k = None \<Longrightarrow> props_put k v ps = AList.update k v ps"
  by (cases "map_of ps k") (simp_all add: props_put_def insert_new_last update_last)

lemma add_row_entry:
  assumes "ordinary_key r"
  shows "add_row ob r = (if keyed_scalar r then ob\<lparr>own := row_entry (own ob) r\<rparr> else ob)"
proof (cases "row_key r")
  case None
  then show ?thesis by (simp add: add_row_def keyed_scalar_def falsy_key_def)
next
  case (Some k)
  with assms have "array_index k = None" "k \<noteq> ''__proto__''" by (simp_all add: ordinary_key_def)
  with Some show ?thesis
    by (simp add: add_row_def keyed_scalar_def falsy_key_def assign_prop_def row_entry_def
        props_put_update)
qed

lemma foldl_add_row_mapping:
  assumes "list_all ordinary_key rows"
  shows "foldl add_row ob rows = ob\<lparr>own := foldl row_entry (own ob) (filter keyed_scalar rows)\<rparr>"
  using assms
proof (induction rows arbitrary: ob)
  case Nil
  then show ?case by simp
next
  case (Cons r rows)
  then have "ordinary_key r" "list_all ordinary_key rows" by simp_all
  with Cons.IH [of "add_row ob r"] show ?case by (simp add: add_row_entry)
qed

text \<open>
  Claim C8, as amended.  \<^verbatim>\<open>normalizeNodeData\<close> is \<open>normalize_amended\<close>: no rows give
  \<^verbatim>\<open>{}\<close>; a single row without key, or with the empty key, gives its value as the template
  literal inserts it, a string without quotes; any other list gives the JSON text, indented by
  two spaces, of the mapping from key to value over the rows that have a key and are not of
  type \<^verbatim>\<open>array\<close> or \<^verbatim>\<open>object\<close>, in the order of the rows.  This holds when no key is an array
  index or \<^verbatim>\<open>__proto__\<close>.
\<close>

theorem normalizeNodeData_cases:
  assumes "list_all ordinary_key rows"
  shows "normalizeNodeData rows = normalize_amended rows"
proof -
  from assms have "own (build_obj rows) = row_mapping rows"
    by (simp add: build_obj_def row_mapping_def foldl_add_row_mapping empty_obj_def)
  then show ?thesis by (auto simp: normalizeNodeData_def normalize_amended_def)
qed

text \<open>
  The theorem at three rows, of which the array row and the row without key are left out;
  the value 42 alone gives \<^verbatim>\<open>42\<close>, and no rows give \<^verbatim>\<open>{}\<close>.
\<close>

theorem normalizeNodeData_cases_witness:
  \<open>list_all ordinary_key
     [\<lparr>row_key = Some ''a'', row_value = SNum 1, row_type = ''number''\<rparr>,
      \<lparr>row_key = Some ''b'', row_value = SNull, row_type = ''array''\<rparr>,
      \<lparr>row_key = None, row_value = SStr ''x'', row_type = ''string''\<rparr>] \<and>
   normalizeNodeData
     [\<lparr>row_key = Some ''a'', row_value = SNum 1, row_type = ''number''\<rparr>,
      \<lparr>row_key = Some ''b'', row_value = SNull, row_type = ''array''\<rparr>,
      \<lparr>row_key = None, row_value = SStr ''x'', row_type = ''string''\<rparr>]
     = normalize_amended
     [\<lparr>row_key = Some ''a'', row_value = SNum 1, row_type = ''number''\<rparr>,
      \<lparr>row_key = Some ''b'', row_value = SNull, row_type = ''array''\<rparr>,
      \<lparr>row_key = None, row_value = SStr ''x'', row_type = ''string''\<rparr>] \<and>
   normalize_amended
     [\<lparr>row_key = Some ''a'', row_value = SNum 1, row_type = ''number''\<rparr>,
      \<lparr>row_key = Some ''b'', row_value = SNull, row_type = ''array''\<rparr>,
      \<lparr>row_key = None, row_value = SStr ''x'', row_type = ''string''\<rparr>]
     = [CHR ''{'', CHR 0x0A] @ ''  "a": 1'' @ [CHR 0x0A, CHR ''}''] \<and>
   normalizeNodeData [\<lparr>row_key = None, row_value = SNum 42, row_type = ''number''\<rparr>] = ''42'' \<and>
   normalizeNodeData [] = ''{}''\<close>
proof -
  have 1: "list_all ordinary_key
     [\<lparr>row_key = Some ''a'', row_value = SNum 1, row_type = ''number''\<rparr>,
      \<lparr>row_key = Some ''b'', row_value = SNull, row_type = ''array''\<rparr>,
      \<lparr>row_key = None, row_value = SStr ''x'', row_type = ''string''\<rparr>]"
    by code_simp
  have 2: \<open>normalize_amended
     [\<lparr>row_key = Some ''a'', row_value = SNum 1, row_type = ''number''\<rparr>,
      \<lparr>row_key = Some ''b'', row_value = SNull, row_type = ''array''\<rparr>,
      \<lparr>row_key = None, row_value = SStr ''x'', row_type = ''string''\<rparr>]
     = [CHR ''{'', CHR 0x0A] @ ''  "a": 1'' @ [CHR 0x0A, CHR ''}'']\<close>
    by code_simp
  have 3: "normalizeNodeData [\<lparr>row_key = None, row_value = SNum 42, row_type = ''number''\<rparr>] = ''42''"
    by code_simp
  have 4: "normalizeNodeData [] = ''{}''" by code_simp
  from normalizeNodeData_cases [OF 1] 1 2 3 4 show ?thesis by simp
qed

text \<open>
  The claim as first stated fails.  A single row without key whose value is the string
  \<^verbatim>\<open>hi\<close> gives \<^verbatim>\<open>hi\<close>, which is not the JSON text \<^verbatim>\<open>"hi"\<close>; and the rows \<^verbatim>\<open>b\<close>, \<^verbatim>\<open>1\<close>
  give an object that lists the key \<^verbatim>\<open>1\<close> first.
\<close>

theorem normalizeNodeData_cases_counterexample:
  \<open>normalizeNodeData [\<lparr>row_key = None, row_value = SStr ''hi'', row_type = ''string''\<rparr>] = ''hi'' \<and>
   normalize_spec [\<lparr>row_key = None, row_value = SStr ''hi'', row_type = ''string''\<rparr>] = ''"hi"'' \<and>
   normalizeNodeData
     [\<lparr>row_key = Some ''b'', row_value = SNum 1, row_type = ''number''\<rparr>,
      \<lparr>row_key = Some ''1'', row_value = SNum 2, row_type = ''number''\<rparr>]
     = [CHR ''{'', CHR 0x0A] @ ''  "1": 2,'' @ [CHR 0x0A] @ ''  "b": 1'' @ [CHR 0x0A, CHR ''}''] \<and>
   normalize_spec
     [\<lparr>row_key = Some ''b'', row_value = SNum 1, row_type = ''number''\<rparr>,
      \<lparr>row_key = Some ''1'', row_value = SNum 2, row_type = ''number''\<rparr>]
     = [CHR ''{'', CHR 0x0A] @ ''  "b": 1,'' @ [CHR 0x0A] @ ''  "1": 2'' @ [CHR 0x0A, CHR ''}'']\<close>
  by code_simp

section \<open>Writing, then reading\<close>


lemma repr_new_container:
  assumes "a < length h" and "h ! a = new_container s"
  shows "\<exists>t. repr h (JRef a) t"
proof (cases s)
  case (Index n)
  with assms have "repr h (JRef a) (TArr [])" by simp
  then show ?thesis ..
next
  case (Key k)
  with assms have "repr h (JRef a) (TObj [])" by simp
  then show ?thesis ..
qed


lemma dense_elements:
  assumes "map fst ps = map decimal [0..<n]"
  shows "map (element ps) [0..<n] = ps"
proof (rule nth_equalityI)
  from assms have len: "length ps = n" by (metis length_map length_upt minus_nat.diff_0)
  then show "length (map (element ps) [0..<n]) = length ps" by simp
  fix i
  assume "i < length (map (element ps) [0..<n])"
  with len have i: "i < n" "i < length ps" by simp_all
  from assms have d: "distinct (map fst ps)" by (simp add: distinct_decimal)
  from assms i have "fst (ps ! i) = decimal i" by (metis nth_map nth_upt plus_nat.add_0 length_map)
  moreover from i have "ps ! i \<in> set ps" by simp
  ultimately have "map_of ps (decimal i) = Some (snd (ps ! i))"
    using d by (metis map_of_eq_Some_iff prod.collapse)
  with i \<open>fst (ps ! i) = decimal i\<close> show "map (element ps) [0..<n] ! i = ps ! i"
    by (simp add: element_def prod_eq_iff)
qed

lemma shallow_copy_container:
  assumes "repr h (JRef a) t"
  shows "shallow_copy h (JRef a) = Inr (h ! a)"
  using assms
  by (cases rule: repr_ref_cases) (simp_all add: shallow_copy_def dense_elements)

lemma repr_copy:
  assumes "repr h (JRef a) t"
  shows "repr (h @ [h ! a]) (JRef (length h)) t"
  using assms
proof (cases rule: repr_ref_cases)
  case (1 ts n ps)
  from 1(7) have "list_all2 (repr (h @ [h ! a])) (map snd ps) ts"
    by (rule list.rel_mono_strong) (rule repr_append)
  with 1 show ?thesis by simp
next
  case (2 kts ps)
  from 2(5) have "list_all2 (repr (h @ [h ! a])) (map snd ps) (map snd kts)"
    by (rule list.rel_mono_strong) (rule repr_append)
  with 2 show ?thesis by simp
qed

lemma shallow_copy_repr:
  assumes "repr h D t" and "shallow_copy h D = Inr ob"
  shows "\<exists>t'. repr (h @ [ob]) (JRef (length h)) t'"
proof (cases D)
  case (JRef a)
  with assms show ?thesis using shallow_copy_container [of h a t] repr_copy [of h a t] by auto
next
  case (JStr s)
  with assms(2) have ob: "ob = Obj (map (\<lambda>i. (decimal i, JStr [s ! i])) [0..<length s])"
    by (simp add: shallow_copy_def)
  have "repr (h @ [ob]) (JRef (length h)) (TObj (map (\<lambda>i. (decimal i, TStr [s ! i])) [0..<length s]))"
    by (simp add: ob comp_def list_all2_conv_all_nth)
  then show ?thesis ..
next
  case JUndefined
  with assms(1) show ?thesis by (simp add: repr_not_undefined)
next
  case JNull
  with assms(2) have "ob = Obj []" by (simp add: shallow_copy_def)
  then have "repr (h @ [ob]) (JRef (length h)) (TObj [])" by simp
  then show ?thesis ..
next
  case (JBool b)
  with assms(2) have "ob = Obj []" by (simp add: shallow_copy_def)
  then have "repr (h @ [ob]) (JRef (length h)) (TObj [])" by simp
  then show ?thesis ..
next
  case (JNum n)
  with assms(2) have "ob = Obj []" by (simp add: shallow_copy_def)
  then have "repr (h @ [ob]) (JRef (length h)) (TObj [])" by simp
  then show ?thesis ..
qed

lemma setValueAtPath_cases:
  assumes "setValueAtPath h D path v = Inr (r, h')"
  obtains (whole) "path = None \<or> path = Some []" "r = v" "h' = h"
  | (inside) p ob where "path = Some p" "p \<noteq> []" "shallow_copy h D = Inr ob"
      "set_loop (h @ [ob]) (JRef (length h)) p v = Inr h'" "r = JRef (length h)"
proof (cases "path = None \<or> path = Some []")
  case True
  with assms have "r = v" "h' = h" by (auto simp: setValueAtPath_def)
  with True show thesis by (rule whole)
next
  case False
  then obtain p where p: "path = Some p" "p \<noteq> []" by (cases path) auto
  with assms obtain ob where ob: "shallow_copy h D = Inr ob"
    by (cases "shallow_copy h D") (simp_all add: setValueAtPath_def)
  with assms p have "set_loop (h @ [ob]) (JRef (length h)) p v = Inr h'" "r = JRef (length h)"
    by (cases "set_loop (h @ [ob]) (JRef (length h)) p v"; simp add: setValueAtPath_def)+
  with p ob show thesis by (rule inside)
qed















section \<open>Missing containers\<close>

lemma get_loop_undefined: "get_loop h JUndefined q = Inr JUndefined"
  by (cases q) simp_all

lemma get_prop_append: "get_prop h x k = Inr y \<Longrightarrow> get_prop (h @ hs) x k = Inr y"
  by (rule get_prop_frame [of h "h @ hs"]) (simp_all add: nth_append)

lemma get_loop_append: "get_loop h x q = Inr y \<Longrightarrow> get_loop (h @ hs) x q = Inr y"
proof (induction q arbitrary: x)
  case Nil
  then show ?case by simp
next
  case (Cons seg q)
  show ?case
  proof (cases "x = JUndefined \<or> x = JNull")
    case True
    with Cons.prems show ?thesis by auto
  next
    case False
    with Cons.prems obtain c where c: "get_prop h x (seg_key seg) = Inr c" "get_loop h c q = Inr y"
      by (cases "get_prop h x (seg_key seg)") auto
    from c(1) have "get_prop (h @ hs) x (seg_key seg) = Inr c" by (rule get_prop_append)
    with False c(2) Cons.IH [of c] show ?thesis by simp
  qed
qed

lemma get_prop_new_container:
  assumes "a < length h" and "h ! a = new_container s" and "get_prop h (JRef a) (seg_key s) = Inr y"
  shows "y = JUndefined"
proof (cases s)
  case (Index n)
  with assms show ?thesis by (auto simp: decimal_not_length dest: inherited_cases)
next
  case (Key k)
  with assms show ?thesis by (auto dest: inherited_cases)
qed

lemma set_loop_first_read:
  assumes "set_loop h x (seg # nxt # rest) v = Inr h'"
  obtains y where "get_prop h x (seg_key seg) = Inr y"
  using assms by (cases "get_prop h x (seg_key seg)") auto

lemma get_prop_defined: "get_prop h x k = Inr y \<Longrightarrow> x \<noteq> JUndefined \<and> x \<noteq> JNull"
  by auto

lemma set_loop_creates:
  assumes "set_loop h x p v = Inr h'" and "Suc i < length p" and "repr h x t"
    and "get_loop h x (take (Suc i) p) = Inr JUndefined"
  shows "\<exists>a. get_loop h' x (take (Suc i) p) = Inr (JRef a) \<and> length h \<le> a \<and> a < length h' \<and>
             array_obj (h' ! a) = is_index (p ! Suc i)"
  using assms
proof (induction p arbitrary: h x t i)
  case Nil
  then show ?case by simp
next
  case (Cons seg p)
  from Cons.prems(2) obtain nxt rest where p: "p = nxt # rest" by (cases p) auto
  with Cons.prems have run: "set_loop h x (seg # nxt # rest) v = Inr h'" by simp
  from run show ?case
  proof (cases rule: set_loop_stepE)
    case (create h1)
    from create(1,2) obtain a ob' where a: "x = JRef a" "a < length h"
        "h1 = (h @ [new_container nxt])[a := ob']" "array_obj ob' = array_obj (h ! a)"
        "length h1 = Suc (length h)" "h1 ! length h = new_container nxt"
      by (rule set_prop_created)
    from create(4) p have frame: "length h1 \<le> length h'"
        "\<And>b. b < length h1 \<Longrightarrow> \<not> reaches h1 (JRef (length h)) b \<Longrightarrow> h' ! b = h1 ! b"
        "\<And>b. b < length h1 \<Longrightarrow> array_obj (h' ! b) = array_obj (h1 ! b)"
      using set_loop_frame [of h1 "JRef (length h)" p v h'] by auto
    have leaf: "obj_props (h1 ! length h) = []" by (cases nxt) (simp_all add: a(6))
    have link: "get_prop h' x (seg_key seg) = Inr (JRef (length h))"
    proof (rule get_prop_frame [OF frame(1) _ create(3)])
      fix b
      assume b: "x = JRef b" "b < length h1"
      with a have "\<not> reaches h1 (JRef (length h)) b"
        using reaches_leaf [OF leaf] by auto
      with b show "h' ! b = h1 ! b" by (simp add: frame(2))
    qed
    show ?thesis
    proof (cases i)
      case 0
      have "array_obj (h' ! length h) = is_index nxt"
        using frame(3) [of "length h"] a(5,6) by (cases nxt) simp_all
      with 0 link a(1,5) frame(1) p show ?thesis by simp
    next
      case (Suc j)
      with Cons.prems(2) p obtain nxt2 rest2 where rest: "rest = nxt2 # rest2"
        by (cases rest) auto
      from create(4) rest have "set_loop h1 (JRef (length h)) (nxt # nxt2 # rest2) v = Inr h'"
        by simp
      then obtain y' where "get_prop h1 (JRef (length h)) (seg_key nxt) = Inr y'"
        by (rule set_loop_first_read)
      with a(5,6) have "get_prop h1 (JRef (length h)) (seg_key nxt) = Inr JUndefined"
        using get_prop_new_container [of "length h" h1 nxt y'] by simp
      then have missing: "get_loop h1 (JRef (length h)) (take (Suc j) p) = Inr JUndefined"
        by (simp add: p get_loop_undefined)
      from a(5,6) obtain t' where t': "repr h1 (JRef (length h)) t'"
        using repr_new_container [of "length h" h1 nxt] by auto
      from Cons.prems(2) Suc have "Suc j < length p" by simp
      with create(4) p t' missing Cons.IH [of h1 "JRef (length h)" j t']
      obtain b where b: "get_loop h' (JRef (length h)) (take (Suc j) p) = Inr (JRef b)"
          "length h1 \<le> b" "b < length h'" "array_obj (h' ! b) = is_index (p ! Suc j)"
        by auto
      from b(1) link a(1) Suc have "get_loop h' x (take (Suc i) (seg # p)) = Inr (JRef b)"
        by simp
      with b a(5) Suc show ?thesis by auto
    qed
  next
    case (descend y)
    from descend(1) have x: "x \<noteq> JUndefined" "x \<noteq> JNull" by auto
    from repr_get [OF Cons.prems(3) descend(1,2)] obtain t' where t': "repr h y t'" ..
    from descend(3) p have frame: "length h \<le> length h'"
        "\<And>b. b < length h \<Longrightarrow> \<not> reaches h y b \<Longrightarrow> h' ! b = h ! b"
      using set_loop_frame [of h y p v h'] by auto
    have link: "get_prop h' x (seg_key seg) = Inr y"
    proof (rule get_prop_frame [OF frame(1) _ descend(1)])
      fix b
      assume b: "x = JRef b" "b < length h"
      with Cons.prems(3) descend(1) have "\<not> reaches h y b" by (simp add: repr_get_acyclic)
      with b show "h' ! b = h ! b" by (simp add: frame(2))
    qed
    from Cons.prems(4) x descend(1) have rest: "get_loop h y (take i p) = Inr JUndefined"
      by simp
    show ?thesis
    proof (cases i)
      case 0
      with rest descend(2) show ?thesis by simp
    next
      case (Suc j)
      with Cons.prems(2) have "Suc j < length p" by simp
      with descend(3) p t' rest Suc Cons.IH [of h y j t']
      obtain b where b: "get_loop h' y (take (Suc j) p) = Inr (JRef b)"
          "length h \<le> b" "b < length h'" "array_obj (h' ! b) = is_index (p ! Suc j)"
        by auto
      from b(1) link x Suc have "get_loop h' x (take (Suc i) (seg # p)) = Inr (JRef b)"
        by simp
      with b Suc show ?thesis by auto
    qed
  qed
qed

lemma copy_get:
  assumes "shallow_copy h D = Inr ob" and "get_prop (h @ [ob]) (JRef (length h)) k = Inr y"
    and "y \<noteq> JUndefined"
  shows "get_prop h D k = Inr y"
proof (cases D)
  case (JRef a)
  with assms(1) have a: "a < length h" by (auto simp: shallow_copy_def split: if_splits)
  show ?thesis
  proof (cases "h ! a")
    case (Obj ps)
    with assms JRef a show ?thesis by (auto simp: shallow_copy_def)
  next
    case (Arr n ps)
    with assms(1) JRef a have ob: "ob = Arr n (map (element ps) [0..<n])"
      by (simp add: shallow_copy_def)
    show ?thesis
    proof (cases "k = ''length''")
      case True
      with assms(2) ob JRef a Arr show ?thesis by simp
    next
      case False
      with assms(2,3) ob have "map_of (map (element ps) [0..<n]) k = Some y"
        by (auto split: option.splits dest: inherited_cases)
      then have "(k, y) \<in> set (map (element ps) [0..<n])" by (rule map_of_SomeD)
      then obtain i where "k = decimal i"
          "y = (case map_of ps (decimal i) of None \<Rightarrow> JUndefined | Some w \<Rightarrow> w)"
        by (auto simp: element_def)
      with assms(3) have "map_of ps k = Some y" by (auto split: option.splits)
      with False JRef a Arr show ?thesis by simp
    qed
  qed
next
  case (JStr s)
  with assms(1) have ob: "ob = Obj (map (\<lambda>i. (decimal i, JStr [s ! i])) [0..<length s])"
    by (simp add: shallow_copy_def)
  with assms(2,3) have "map_of (map (\<lambda>i. (decimal i, JStr [s ! i])) [0..<length s]) k = Some y"
    by (auto split: option.splits dest: inherited_cases)
  then have "(k, y) \<in> set (map (\<lambda>i. (decimal i, JStr [s ! i])) [0..<length s])"
    by (rule map_of_SomeD)
  then obtain i where "k = decimal i" "y = JStr [s ! i]" "i < length s" by auto
  with JStr show ?thesis by (simp add: decimal_not_length numeric_index_decimal)
next
  case JUndefined
  with assms show ?thesis by (auto simp: shallow_copy_def dest: inherited_cases)
next
  case JNull
  with assms show ?thesis by (auto simp: shallow_copy_def dest: inherited_cases)
next
  case (JBool b)
  with assms show ?thesis by (auto simp: shallow_copy_def dest: inherited_cases)
next
  case (JNum n)
  with assms show ?thesis by (auto simp: shallow_copy_def dest: inherited_cases)
qed

text \<open>
  Where a prefix of the path leads to nothing in the document and the call returns, the
  returned document has a container there that the call has created.
\<close>

lemma created_where_missing:
  assumes "repr h D t" and "setValueAtPath h D (Some p) v = Inr (r, h')"
    and "Suc i < length p" and "getValueAtPath h D (Some (take (Suc i) p)) = Inr JUndefined"
  shows "\<exists>a. getValueAtPath h' r (Some (take (Suc i) p)) = Inr (JRef a) \<and>
              length h < a \<and> a < length h' \<and> array_obj (h' ! a) = is_index (p ! Suc i)"
proof -
  from assms(3) obtain seg nxt rest where p: "p = seg # nxt # rest"
    by (cases p; cases "tl p") auto
  from assms(2) p obtain ob where ob: "shallow_copy h D = Inr ob"
    and run: "set_loop (h @ [ob]) (JRef (length h)) p v = Inr h'" and r: "r = JRef (length h)"
    by (cases rule: setValueAtPath_cases) auto
  from shallow_copy_repr [OF assms(1) ob]
  obtain t' where t': "repr (h @ [ob]) (JRef (length h)) t'" ..
  from run p have "set_loop (h @ [ob]) (JRef (length h)) (seg # nxt # rest) v = Inr h'"
    by simp
  then obtain y where y: "get_prop (h @ [ob]) (JRef (length h)) (seg_key seg) = Inr y"
    by (rule set_loop_first_read)
  have missing: "get_loop (h @ [ob]) (JRef (length h)) (take (Suc i) p) = Inr JUndefined"
  proof (cases "y = JUndefined")
    case True
    with y p show ?thesis by (simp add: get_loop_undefined)
  next
    case False
    with ob y have d: "get_prop h D (seg_key seg) = Inr y" by (rule copy_get)
    then have "D \<noteq> JUndefined" "D \<noteq> JNull" by auto
    with assms(4) d p have "get_loop h y (take i (nxt # rest)) = Inr JUndefined"
      by (simp add: getValueAtPath_def)
    then have "get_loop (h @ [ob]) y (take i (nxt # rest)) = Inr JUndefined"
      by (rule get_loop_append)
    with y p show ?thesis by simp
  qed
  from set_loop_creates [OF run assms(3) t' missing]
  obtain a where a: "get_loop h' (JRef (length h)) (take (Suc i) p) = Inr (JRef a)"
      "length (h @ [ob]) \<le> a" "a < length h'" "array_obj (h' ! a) = is_index (p ! Suc i)"
    by auto
  from a(1) r p have "getValueAtPath h' r (Some (take (Suc i) p)) = Inr (JRef a)"
    by (simp add: getValueAtPath_def)
  with a show ?thesis by auto
qed

section \<open>Writing back what was read\<close>

lemma map_of_related:
  assumes "map fst ps = map fst kts" and "list_all2 R (map snd ps) (map snd kts)"
    and "map_of kts k = Some t"
  shows "\<exists>y. map_of ps k = Some y \<and> R y t"
  using assms
proof (induction ps arbitrary: kts)
  case Nil
  then show ?case by simp
next
  case (Cons p ps)
  from Cons.prems(1) obtain q kts' where kts: "kts = q # kts'" by (cases kts) auto
  with Cons.prems have hd: "fst p = fst q" "R (snd p) (snd q)"
    and tl: "map fst ps = map fst kts'" "list_all2 R (map snd ps) (map snd kts')"
    by simp_all
  show ?case
  proof (cases "fst q = k")
    case True
    with Cons.prems(3) kts hd show ?thesis by (cases p; cases q) auto
  next
    case False
    with Cons.prems(3) kts have "map_of kts' k = Some t" by (cases q) auto
    from Cons.IH [OF tl this] False hd show ?thesis by (cases p; cases q) auto
  qed
qed

lemma repr_tree_step:
  assumes "repr h x t" and "tree_get t (k # ks) = Some t'"
  obtains y t1 where "get_prop h x k = Inr y" "repr h y t1" "tree_get t1 ks = Some t'"
    "set_prop h x k y = Inr h"
proof (cases t)
  case (TArr ts)
  with assms(1) obtain a where x: "x = JRef a" by (cases x) auto
  with assms(1) TArr obtain n ps where a: "a < length h" "h ! a = Arr n ps" "n = length ts"
      "int n < 4294967296" "map fst ps = map decimal [0..<n]" "list_all2 (repr h) (map snd ps) ts"
    by (cases "h ! a") auto
  from assms(2) TArr obtain t1 where t1: "map_of (zip (map decimal [0..<length ts]) ts) k = Some t1"
      "tree_get t1 ks = Some t'"
    by (auto split: option.splits)
  from a(3,5,6) have "map fst ps = map fst (zip (map decimal [0..<length ts]) ts)"
      "list_all2 (repr h) (map snd ps) (map snd (zip (map decimal [0..<length ts]) ts))"
    by simp_all
  from map_of_related [OF this t1(1)] obtain y where y: "map_of ps k = Some y" "repr h y t1"
    by blast
  from y(1) have "k \<in> set (map fst ps)" by (force dest: map_of_SomeD)
  with a(5) obtain i where i: "k = decimal i" "i < n" by auto
  with a(4) have idx: "array_index k = Some i" by (simp add: array_index_decimal)
  from i have nl: "k \<noteq> ''length''" by (simp add: decimal_not_length)
  from x a nl y(1) have get: "get_prop h x k = Inr y" by simp
  from idx i have "grow n k = n" by (simp add: grow_def)
  with x a nl y(1) have "set_prop h x k y = Inr (h[a := h ! a])"
    by (simp add: proto_setter_def props_put_same)
  then have "set_prop h x k y = Inr h" by simp
  with get y(2) t1(2) show thesis by (rule that)
next
  case (TObj kts)
  with assms(1) obtain a where x: "x = JRef a" by (cases x) auto
  with assms(1) TObj obtain ps where a: "a < length h" "h ! a = Obj ps" "map fst ps = map fst kts"
      "list_all2 (repr h) (map snd ps) (map snd kts)"
    by (cases "h ! a") auto
  from assms(2) TObj obtain t1 where t1: "map_of kts k = Some t1" "tree_get t1 ks = Some t'"
    by (auto split: option.splits)
  from map_of_related [OF a(3,4) t1(1)] obtain y where y: "map_of ps k = Some y" "repr h y t1"
    by blast
  from x a y(1) have get: "get_prop h x k = Inr y" by simp
  from x a y(1) have "set_prop h x k y = Inr (h[a := h ! a])"
    by (simp add: proto_setter_def props_put_same)
  then have "set_prop h x k y = Inr h" by simp
  with get y(2) t1(2) show thesis by (rule that)
qed (use assms(2) in simp_all)

lemma set_loop_same:
  assumes "repr h x t" and "tree_get t (map seg_key p) = Some t'" and "p \<noteq> []"
  shows "\<exists>y. get_loop h x p = Inr y \<and> repr h y t' \<and> set_loop h x p y = Inr h"
  using assms
proof (induction p arbitrary: x t)
  case Nil
  then show ?case by simp
next
  case (Cons seg p)
  from Cons.prems(2) have "tree_get t (seg_key seg # map seg_key p) = Some t'" by simp
  with Cons.prems(1) obtain y1 t1 where step: "get_prop h x (seg_key seg) = Inr y1" "repr h y1 t1"
      "tree_get t1 (map seg_key p) = Some t'" "set_prop h x (seg_key seg) y1 = Inr h"
    by (rule repr_tree_step)
  from step(1) have x: "x \<noteq> JUndefined" "x \<noteq> JNull" by auto
  show ?case
  proof (cases p)
    case Nil
    with step x show ?thesis by simp
  next
    case (Cons nxt rest)
    with Cons.IH [OF step(2,3)] obtain y where y: "get_loop h y1 p = Inr y" "repr h y t'"
        "set_loop h y1 p y = Inr h"
      by auto
    from step(2) have "y1 \<noteq> JUndefined" by (auto simp: repr_not_undefined)
    with step(1) y(3) Cons have "set_loop h x (seg # p) y = Inr h" by simp
    with y x step(1) show ?thesis by simp
  qed
qed

lemma get_prop_copy:
  "a < length h \<Longrightarrow> get_prop (h @ [h ! a]) (JRef (length h)) k = get_prop h (JRef a) k"
  by simp

text \<open>
  Claim C3, as amended.  Let \<open>D\<close> be a JSON document and let the path lead through arrays and
  objects of \<open>D\<close> to one of its members (each segment an index of the array or a key of the
  object it is applied to).  Then \<^verbatim>\<open>getValueAtPath\<close> yields that member, and writing it back
  at the same path returns a document deep-equal to \<open>D\<close>; \<open>D\<close> itself is deep-equal to what
  it was.
\<close>

theorem write_back_resolved:
  assumes "repr h D t" and "tree_get t (map seg_key p) = Some t'"
  shows "\<exists>x r h'. getValueAtPath h D (Some p) = Inr x \<and> repr h x t' \<and>
           setValueAtPath h D (Some p) x = Inr (r, h') \<and> repr h' r t \<and> repr h' D t"
proof (cases p)
  case Nil
  with assms show ?thesis by (simp add: getValueAtPath_def setValueAtPath_def)
next
  case (Cons seg rest)
  then have ne: "p \<noteq> []" by simp
  from set_loop_same [OF assms ne] obtain y where y: "get_loop h D p = Inr y" "repr h y t'"
    by blast
  from assms(2) Cons have "tree_get t (seg_key seg # map seg_key rest) = Some t'" by simp
  with assms(1) obtain y1 t1 where step: "get_prop h D (seg_key seg) = Inr y1" "repr h y1 t1"
    by (rule repr_tree_step)
  then obtain a where D: "D = JRef a"
    using assms(2) Cons assms(1) by (cases t; cases D) auto
  with step(1) have a: "a < length h" by (auto split: if_splits)
  let ?h1 = "h @ [h ! a]"
  from assms(1) D have copy: "shallow_copy h D = Inr (h ! a)" by (simp add: shallow_copy_container)
  from assms(1) D have r1: "repr ?h1 (JRef (length h)) t" by (simp add: repr_copy)
  from set_loop_same [OF r1 assms(2) ne] obtain y' where
    y': "get_loop ?h1 (JRef (length h)) p = Inr y'" "set_loop ?h1 (JRef (length h)) p y' = Inr ?h1"
    by blast
  from step(1) have "D \<noteq> JUndefined" "D \<noteq> JNull" by auto
  with y(1) step(1) Cons have "get_loop h y1 rest = Inr y" by simp
  then have "get_loop ?h1 y1 rest = Inr y" by (rule get_loop_append)
  moreover from a step(1) D have "get_prop ?h1 (JRef (length h)) (seg_key seg) = Inr y1"
    by (simp only: get_prop_copy)
  ultimately have "get_loop ?h1 (JRef (length h)) p = Inr y" using Cons by simp
  with y' have same: "y' = y" by simp
  from copy y'(2) same ne have "setValueAtPath h D (Some p) y = Inr (JRef (length h), ?h1)"
    by (simp add: setValueAtPath_def)
  moreover from y(1) ne have "getValueAtPath h D (Some p) = Inr y"
    by (simp add: getValueAtPath_def)
  moreover from assms(1) have "repr ?h1 D t" by (rule repr_append)
  ultimately show ?thesis using y(2) r1 by blast
qed

text \<open>The theorem at the document \<^verbatim>\<open>{"a":[5,null]}\<close> and the path \<^verbatim>\<open>["a",1]\<close>.\<close>

theorem write_back_resolved_witness:
  "repr [Obj [(''a'', JRef 1)], Arr 2 [(''0'', JNum 5), (''1'', JNull)]] (JRef 0)
     (TObj [(''a'', TArr [TNum 5, TNull])]) \<and>
   tree_get (TObj [(''a'', TArr [TNum 5, TNull])]) (map seg_key [Key ''a'', Index 1]) = Some TNull \<and>
   (\<exists>x r h'. getValueAtPath [Obj [(''a'', JRef 1)], Arr 2 [(''0'', JNum 5), (''1'', JNull)]] (JRef 0)
        (Some [Key ''a'', Index 1]) = Inr x \<and>
      repr [Obj [(''a'', JRef 1)], Arr 2 [(''0'', JNum 5), (''1'', JNull)]] x TNull \<and>
      setValueAtPath [Obj [(''a'', JRef 1)], Arr 2 [(''0'', JNum 5), (''1'', JNull)]] (JRef 0)
        (Some [Key ''a'', Index 1]) x = Inr (r, h') \<and>
      repr h' r (TObj [(''a'', TArr [TNum 5, TNull])]) \<and>
      repr h' (JRef 0) (TObj [(''a'', TArr [TNum 5, TNull])]))"
proof -
  have 1: "repr [Obj [(''a'', JRef 1)], Arr 2 [(''0'', JNum 5), (''1'', JNull)]] (JRef 0)
     (TObj [(''a'', TArr [TNum 5, TNull])])"
    by code_simp
  have 2: "tree_get (TObj [(''a'', TArr [TNum 5, TNull])]) (map seg_key [Key ''a'', Index 1])
     = Some TNull"
    by code_simp
  from write_back_resolved [OF 1 2] 1 2 show ?thesis by blast
qed

text \<open>
  The claim as first stated fails where the path enters a string.  In the document
  \<^verbatim>\<open>"abc"\<close> the path \<^verbatim>\<open>[0]\<close> reads \<^verbatim>\<open>"a"\<close>, and writing it back returns the object
  \<^verbatim>\<open>{"0":"a","1":"b","2":"c"}\<close>.  In \<^verbatim>\<open>{"a":"xy"}\<close> the path \<^verbatim>\<open>["a",0]\<close> reads \<^verbatim>\<open>"x"\<close>, and
  writing it back throws.
\<close>

theorem write_back_resolved_counterexample:
  "repr [] (JStr ''abc'') (TStr ''abc'') \<and>
   getValueAtPath [] (JStr ''abc'') (Some [Index 0]) = Inr (JStr ''a'') \<and>
   setValueAtPath [] (JStr ''abc'') (Some [Index 0]) (JStr ''a'')
     = Inr (JRef 0, [Obj [(''0'', JStr ''a''), (''1'', JStr ''b''), (''2'', JStr ''c'')]]) \<and>
   \<not> repr [Obj [(''0'', JStr ''a''), (''1'', JStr ''b''), (''2'', JStr ''c'')]] (JRef 0) (TStr ''abc'') \<and>
   repr [Obj [(''a'', JStr ''xy'')]] (JRef 0) (TObj [(''a'', TStr ''xy'')]) \<and>
   getValueAtPath [Obj [(''a'', JStr ''xy'')]] (JRef 0) (Some [Key ''a'', Index 0]) = Inr (JStr ''x'') \<and>
   setValueAtPath [Obj [(''a'', JStr ''xy'')]] (JRef 0) (Some [Key ''a'', Index 0]) (JStr ''x'')
     = Inl TypeError"
  by code_simp

section \<open>Reading along a path\<close>

lemma getValueAtPath_loop: "getValueAtPath h obj (Some p) = get_loop h obj p"
  by (cases p) (simp_all add: getValueAtPath_def)

lemma get_loop_nullish: "x = JUndefined \<or> x = JNull \<Longrightarrow> q \<noteq> [] \<Longrightarrow> get_loop h x q = Inr JUndefined"
  by (cases q) auto

lemma get_loop_concat:
  "get_loop h x (p @ q) = (case get_loop h x p of Inl e \<Rightarrow> Inl e | Inr c \<Rightarrow> get_loop h c q)"
proof (induction p arbitrary: x)
  case Nil
  then show ?case by simp
next
  case (Cons seg p)
  show ?case
  proof (cases "x = JUndefined \<or> x = JNull")
    case True
    then show ?thesis by (auto simp: get_loop_undefined)
  next
    case False
    with Cons.IH show ?thesis by (simp split: sum.splits)
  qed
qed

lemma lacks_get: "lacks h x k \<Longrightarrow> get_prop h x k = Inr JUndefined"
  by (cases x) (auto simp: inherited_def split: jsobj.splits option.splits)







section \<open>The input of setValueAtPath\<close>

text \<open>
  Claim C1 says that \<^verbatim>\<open>setValueAtPath\<close> never mutates its input.  The function copies the
  root container only: below the root, \<open>cur\<close> moves into the objects of the input itself, and
  the last segment is assigned there.  On the document \<^verbatim>\<open>{"a":{"b":1}}\<close>, the path
  \<^verbatim>\<open>["a","b"]\<close> and the value 2, the input is \<^verbatim>\<open>{"a":{"b":2}}\<close> after the call and no longer
  \<^verbatim>\<open>{"a":{"b":1}}\<close>.
\<close>

theorem setValueAtPath_mutates_input:
  "repr [Obj [(''a'', JRef 1)], Obj [(''b'', JNum 1)]] (JRef 0) (TObj [(''a'', TObj [(''b'', TNum 1)])]) \<and>
   setValueAtPath [Obj [(''a'', JRef 1)], Obj [(''b'', JNum 1)]] (JRef 0)
       (Some [Key ''a'', Key ''b'']) (JNum 2)
     = Inr (JRef 2, [Obj [(''a'', JRef 1)], Obj [(''b'', JNum 2)], Obj [(''a'', JRef 1)]]) \<and>
   repr [Obj [(''a'', JRef 1)], Obj [(''b'', JNum 2)], Obj [(''a'', JRef 1)]] (JRef 0)
     (TObj [(''a'', TObj [(''b'', TNum 2)])]) \<and>
   \<not> repr [Obj [(''a'', JRef 1)], Obj [(''b'', JNum 2)], Obj [(''a'', JRef 1)]] (JRef 0)
     (TObj [(''a'', TObj [(''b'', TNum 1)])])"
  by code_simp

section \<open>Creating the missing containers\<close>

lemma names_not_digits:
  "k \<in> set object_proto_names \<or> k \<in> set array_proto_names \<Longrightarrow> \<not> list_all is_digit k"
  by (auto simp: object_proto_names_def array_proto_names_def is_digit_def)

lemma decimal_not_name:
  "decimal n \<notin> set object_proto_names" "decimal n \<notin> set array_proto_names"
  using names_not_digits [of "decimal n"] decimal_digits [of n] by auto

lemma proto_is_name: "''__proto__'' \<in> set object_proto_names"
  by (simp add: object_proto_names_def)

lemma plain_seg_key: "plain_seg s \<Longrightarrow> seg_key s \<notin> set object_proto_names"
  by (cases s) (simp_all add: decimal_not_name)

lemma new_container_lacks:
  assumes "c < length h" and "h ! c = new_container s" and "plain_seg s"
  shows "lacks h (JRef c) (seg_key s)"
proof (cases s)
  case (Index n)
  with assms show ?thesis by (simp add: decimal_not_length decimal_not_name)
next
  case (Key k)
  with assms show ?thesis by simp
qed

lemma set_prop_lacking:
  assumes "lacks h (JRef a) k"
  shows "\<exists>h1. set_prop (h @ hs) (JRef a) k v = Inr h1"
proof -
  from assms have a: "a < length h" and k: "k \<noteq> ''__proto__''"
    using proto_is_name by (auto split: jsobj.splits)
  show ?thesis
  proof (cases "h ! a")
    case (Obj ps)
    with a k show ?thesis by (simp add: nth_append proto_setter_def)
  next
    case (Arr n ps)
    with assms a have "k \<noteq> ''length''" by simp
    with Arr a k show ?thesis by (simp add: nth_append proto_setter_def)
  qed
qed

lemma set_loop_createI:
  assumes "get_prop h x (seg_key seg) = Inr JUndefined"
    and "set_prop (h @ [new_container nxt]) x (seg_key seg) (JRef (length h)) = Inr h1"
    and "set_loop h1 (JRef (length h)) (nxt # rest) v = Inr h'"
  shows "set_loop h x (seg # nxt # rest) v = Inr h'"
proof -
  from assms(1) have "seg_key seg \<noteq> ''length'' \<or> \<not> is_array (h @ [new_container nxt]) x"
    using get_undefined_not_length [of h x "seg_key seg"]
      is_array_append [of h x "seg_key seg" JUndefined]
    by simp
  with assms(2) have "get_prop h1 x (seg_key seg) = Inr (JRef (length h))"
    by (rule get_after_set)
  with assms show ?thesis by simp
qed

lemma set_loop_descendI:
  assumes "get_prop h x (seg_key seg) = Inr y" and "y \<noteq> JUndefined"
    and "set_loop h y (nxt # rest) v = Inr h'"
  shows "set_loop h x (seg # nxt # rest) v = Inr h'"
  using assms by simp

lemma set_loop_new:
  assumes "c < length h" and "h ! c = new_container s" and "list_all plain_seg (s # rest)"
  shows "\<exists>h'. set_loop h (JRef c) (s # rest) v = Inr h'"
  using assms
proof (induction rest arbitrary: h c s)
  case Nil
  then have "lacks h (JRef c) (seg_key s)" by (intro new_container_lacks) simp_all
  from set_prop_lacking [OF this, of "[]" v] show ?case by simp
next
  case (Cons nxt rest)
  then have l: "lacks h (JRef c) (seg_key s)" by (intro new_container_lacks) simp_all
  then have g: "get_prop h (JRef c) (seg_key s) = Inr JUndefined" by (rule lacks_get)
  from set_prop_lacking [OF l, of "[new_container nxt]" "JRef (length h)"]
  obtain h1 where h1: "set_prop (h @ [new_container nxt]) (JRef c) (seg_key s) (JRef (length h)) = Inr h1"
    ..
  from g h1 obtain a ob' where "length h1 = Suc (length h)" "h1 ! length h = new_container nxt"
    by (rule set_prop_created)
  with Cons.prems(3) Cons.IH [of "length h" h1 nxt]
  obtain h' where "set_loop h1 (JRef (length h)) (nxt # rest) v = Inr h'" by auto
  with g h1 have "set_loop h (JRef c) (s # nxt # rest) v = Inr h'" by (rule set_loop_createI)
  then show ?case ..
qed

lemma set_loop_missing:
  assumes "lacks h (JRef a) (seg_key s)" and "rest \<noteq> []" and "list_all plain_seg rest"
  shows "\<exists>h'. set_loop h (JRef a) (s # rest) v = Inr h'"
proof -
  from assms(2) obtain nxt rest' where rest: "rest = nxt # rest'" by (cases rest) auto
  from assms(1) have g: "get_prop h (JRef a) (seg_key s) = Inr JUndefined" by (rule lacks_get)
  from set_prop_lacking [OF assms(1), of "[new_container nxt]" "JRef (length h)"]
  obtain h1 where h1: "set_prop (h @ [new_container nxt]) (JRef a) (seg_key s) (JRef (length h)) = Inr h1"
    ..
  from g h1 obtain b ob' where "length h1 = Suc (length h)" "h1 ! length h = new_container nxt"
    by (rule set_prop_created)
  with assms(3) rest set_loop_new [of "length h" h1 nxt rest' v]
  obtain h' where "set_loop h1 (JRef (length h)) (nxt # rest') v = Inr h'" by auto
  with g h1 have "set_loop h (JRef a) (s # nxt # rest') v = Inr h'" by (rule set_loop_createI)
  with rest show ?thesis by auto
qed

lemma get_prop_ref_source: "get_prop h x k = Inr (JRef b) \<Longrightarrow> \<exists>a. x = JRef a"
  by (cases x) (auto simp: inherited_def split: if_splits option.splits)

lemma get_loop_ref_source: "get_loop h x q = Inr (JRef b) \<Longrightarrow> \<exists>a. x = JRef a"
proof (induction q arbitrary: x)
  case Nil
  then show ?case by simp
next
  case (Cons seg q)
  then have x: "x \<noteq> JUndefined" "x \<noteq> JNull" by (auto split: if_splits)
  with Cons.prems obtain y where y: "get_prop h x (seg_key seg) = Inr y" "get_loop h y q = Inr (JRef b)"
    by (cases "get_prop h x (seg_key seg)") auto
  from Cons.IH [OF y(2)] obtain a where "y = JRef a" ..
  with y(1) show ?case by (auto dest: get_prop_ref_source)
qed

lemma set_loop_returns:
  assumes "get_loop h x pre = Inr (JRef a)" and "lacks h (JRef a) (seg_key s)"
    and "rest \<noteq> []" and "list_all plain_seg rest"
  shows "\<exists>h'. set_loop h x (pre @ s # rest) v = Inr h'"
  using assms(1)
proof (induction pre arbitrary: x)
  case Nil
  with assms(2-4) show ?case by (simp add: set_loop_missing)
next
  case (Cons seg pre)
  then have x: "x \<noteq> JUndefined" "x \<noteq> JNull" by (auto split: if_splits)
  with Cons.prems obtain y where y: "get_prop h x (seg_key seg) = Inr y" "get_loop h y pre = Inr (JRef a)"
    by (cases "get_prop h x (seg_key seg)") auto
  from y(2) have "y \<noteq> JUndefined" by (auto dest: get_loop_ref_source)
  moreover from Cons.IH [OF y(2)] obtain h' where h': "set_loop h y (pre @ s # rest) v = Inr h'" ..
  moreover obtain nxt r where "pre @ s # rest = nxt # r" by (cases pre) auto
  ultimately have "set_loop h x (seg # pre @ s # rest) v = Inr h'"
    using y(1) by (simp add: set_loop_descendI)
  then show ?case by auto
qed

lemma lacks_append: "lacks h (JRef a) k \<Longrightarrow> lacks (h @ hs) (JRef a) k"
  by (auto simp: nth_append)

text \<open>
  Claim C5, as amended.  Let \<open>D\<close> be a JSON document in which the segments \<open>pre\<close> lead to
  an object or array that has no property under the next segment \<open>s\<close>: no member, not the
  \<^verbatim>\<open>length\<close> of an array, no member inherited from the prototype objects.  Let further
  segments follow, the strings among them not naming members of \<^verbatim>\<open>Object.prototype\<close>.  Then
  \<^verbatim>\<open>setValueAtPath\<close> returns, and in the document it returns every position of the path
  from \<open>s\<close> on, the last one apart, holds a container that the call has created: an object
  of the store that is neither in the store before the call nor the copy of the root, an array
  if the next segment is a number and a plain object otherwise.  In particular, writing 1 at
  \<^verbatim>\<open>["a","b"]\<close> into \<^verbatim>\<open>{}\<close> returns \<^verbatim>\<open>{"a":{"b":1}}\<close>.
\<close>

theorem creates_missing_containers:
  assumes "repr h D t" and "getValueAtPath h D (Some pre) = Inr (JRef a)"
    and "lacks h (JRef a) (seg_key s)" and "rest \<noteq> []" and "list_all plain_seg rest"
  shows "(\<exists>r h'. setValueAtPath h D (Some (pre @ s # rest)) v = Inr (r, h') \<and>
            (\<forall>j. j < length rest \<longrightarrow>
               (\<exists>b. getValueAtPath h' r (Some (pre @ s # take j rest)) = Inr (JRef b) \<and>
                    length h < b \<and> b < length h' \<and> array_obj (h' ! b) = is_index (rest ! j)))) \<and>
         setValueAtPath [Obj []] (JRef 0) (Some [Key ''a'', Key ''b'']) (JNum 1)
           = Inr (JRef 1, [Obj [], Obj [(''a'', JRef 2)], Obj [(''b'', JNum 1)]]) \<and>
         repr [Obj [], Obj [(''a'', JRef 2)], Obj [(''b'', JNum 1)]] (JRef 1)
           (TObj [(''a'', TObj [(''b'', TNum 1)])])"
proof -
  let ?p = "pre @ s # rest"
  from assms(2) have reach: "get_loop h D pre = Inr (JRef a)" by (simp add: getValueAtPath_loop)
  then obtain a0 where D: "D = JRef a0" by (auto dest: get_loop_ref_source)
  from assms(1) have "repr h (JRef a0) t" by (simp add: D)
  then have a0: "a0 < length h" by (cases rule: repr_ref_cases) auto
  let ?h1 = "h @ [h ! a0]"
  from assms(1) D have copy: "shallow_copy h D = Inr (h ! a0)" by (simp add: shallow_copy_container)
  from assms(3) have la: "a < length h" by simp
  have "\<exists>x. get_loop ?h1 (JRef (length h)) pre = Inr (JRef x) \<and> lacks ?h1 (JRef x) (seg_key s)"
  proof (cases pre)
    case Nil
    with reach D have "a = a0" by simp
    with assms(3) a0 have "lacks ?h1 (JRef (length h)) (seg_key s)" by (simp add: nth_append)
    with Nil show ?thesis by simp
  next
    case (Cons seg pre')
    with reach D obtain y where y: "get_prop h (JRef a0) (seg_key seg) = Inr y"
        "get_loop h y pre' = Inr (JRef a)"
      by (cases "get_prop h (JRef a0) (seg_key seg)") auto
    from y(1) a0 have "get_prop ?h1 (JRef (length h)) (seg_key seg) = Inr y"
      by (simp only: get_prop_copy)
    moreover from y(2) have "get_loop ?h1 y pre' = Inr (JRef a)" by (rule get_loop_append)
    ultimately have "get_loop ?h1 (JRef (length h)) pre = Inr (JRef a)" using Cons by simp
    moreover from assms(3) have "lacks ?h1 (JRef a) (seg_key s)" by (rule lacks_append)
    ultimately show ?thesis by blast
  qed
  then obtain x where x: "get_loop ?h1 (JRef (length h)) pre = Inr (JRef x)"
      "lacks ?h1 (JRef x) (seg_key s)"
    by blast
  from set_loop_returns [OF x assms(4,5), of v]
  obtain h' where run: "set_loop ?h1 (JRef (length h)) ?p v = Inr h'" ..
  with copy have ret: "setValueAtPath h D (Some ?p) v = Inr (JRef (length h), h')"
    by (simp add: setValueAtPath_def)
  have "\<exists>b. getValueAtPath h' (JRef (length h)) (Some (pre @ s # take j rest)) = Inr (JRef b) \<and>
          length h < b \<and> b < length h' \<and> array_obj (h' ! b) = is_index (rest ! j)"
    if j: "j < length rest" for j
  proof -
    let ?i = "length pre + j"
    from j have i: "Suc ?i < length ?p" by simp
    from j have tk: "take (Suc ?i) ?p = pre @ s # take j rest" by simp
    from assms(3) have "get_prop h (JRef a) (seg_key s) = Inr JUndefined" by (rule lacks_get)
    with reach have "get_loop h D (pre @ s # take j rest) = Inr JUndefined"
      by (simp add: get_loop_concat get_loop_undefined)
    with tk have miss: "getValueAtPath h D (Some (take (Suc ?i) ?p)) = Inr JUndefined"
      by (simp add: getValueAtPath_loop)
    from j have "?p ! Suc ?i = rest ! j" by (simp add: nth_append)
    with created_where_missing [OF assms(1) ret i miss] tk show ?thesis by simp
  qed
  with ret have first: "\<exists>r h'. setValueAtPath h D (Some ?p) v = Inr (r, h') \<and>
      (\<forall>j. j < length rest \<longrightarrow>
         (\<exists>b. getValueAtPath h' r (Some (pre @ s # take j rest)) = Inr (JRef b) \<and>
              length h < b \<and> b < length h' \<and> array_obj (h' ! b) = is_index (rest ! j)))"
    by blast
  have second: "setValueAtPath [Obj []] (JRef 0) (Some [Key ''a'', Key ''b'']) (JNum 1)
           = Inr (JRef 1, [Obj [], Obj [(''a'', JRef 2)], Obj [(''b'', JNum 1)]])"
    by code_simp
  have third: "repr [Obj [], Obj [(''a'', JRef 2)], Obj [(''b'', JNum 1)]] (JRef 1)
           (TObj [(''a'', TObj [(''b'', TNum 1)])])"
    by simp
  from first second third show ?thesis by blast
qed

text \<open>
  The theorem at the document \<^verbatim>\<open>{}\<close> and the path \<^verbatim>\<open>["a",3,"b"]\<close>: under \<^verbatim>\<open>a\<close> the call
  creates an array, since the next segment is a number, and under its index 3 an object.
\<close>

theorem creates_missing_containers_witness:
  "repr [Obj []] (JRef 0) (TObj []) \<and>
   getValueAtPath [Obj []] (JRef 0) (Some []) = Inr (JRef 0) \<and>
   lacks [Obj []] (JRef 0) (seg_key (Key ''a'')) \<and>
   [Index 3, Key ''b''] \<noteq> [] \<and>
   list_all plain_seg [Index 3, Key ''b''] \<and>
   (\<exists>r h'. setValueAtPath [Obj []] (JRef 0) (Some ([] @ Key ''a'' # [Index 3, Key ''b''])) (JNum 1)
              = Inr (r, h') \<and>
      (\<exists>b. getValueAtPath h' r (Some ([] @ Key ''a'' # take 0 [Index 3, Key ''b''])) = Inr (JRef b) \<and>
           length [Obj []] < b \<and> b < length h' \<and>
           array_obj (h' ! b) = is_index ([Index 3, Key ''b''] ! 0)) \<and>
      (\<exists>b. getValueAtPath h' r (Some ([] @ Key ''a'' # take 1 [Index 3, Key ''b''])) = Inr (JRef b) \<and>
           length [Obj []] < b \<and> b < length h' \<and>
           array_obj (h' ! b) = is_index ([Index 3, Key ''b''] ! 1)))"
proof -
  have 1: "repr [Obj []] (JRef 0) (TObj [])" by simp
  have 2: "getValueAtPath [Obj []] (JRef 0) (Some []) = Inr (JRef 0)"
    by (simp add: getValueAtPath_def)
  have 3: "lacks [Obj []] (JRef 0) (seg_key (Key ''a''))" by code_simp
  have 4: "[Index 3, Key ''b''] \<noteq> []" by simp
  have 5: "list_all plain_seg [Index 3, Key ''b'']" by code_simp
  from creates_missing_containers [OF 1 2 3 4 5, of "JNum 1", THEN conjunct1]
  obtain r h' where ret: "setValueAtPath [Obj []] (JRef 0)
        (Some ([] @ Key ''a'' # [Index 3, Key ''b''])) (JNum 1) = Inr (r, h')"
    and each: "\<And>j. j < length [Index 3, Key ''b''] \<Longrightarrow>
      \<exists>b. getValueAtPath h' r (Some ([] @ Key ''a'' # take j [Index 3, Key ''b''])) = Inr (JRef b) \<and>
          length [Obj []] < b \<and> b < length h' \<and>
          array_obj (h' ! b) = is_index ([Index 3, Key ''b''] ! j)"
    by blast
  from each [of 0] each [of 1] ret 1 2 3 4 5 show ?thesis by (intro conjI exI [of _ r] exI [of _ h']) simp_all
qed

text \<open>
  The claim as first stated fails: the test \<^verbatim>\<open>cur[seg] === undefined\<close> is a property read,
  and it finds properties that are not members of the document.  The document \<^verbatim>\<open>[1,2]\<close> has
  nothing at the position \<^verbatim>\<open>length\<close>, but the array has a length, which the path
  \<^verbatim>\<open>["length"]\<close> reads.  Writing 1 at \<^verbatim>\<open>["length","x"]\<close> creates no container there: the
  loop moves to the number 2, and the assignment to it throws a \<^verbatim>\<open>TypeError\<close>.
\<close>

theorem creates_missing_containers_counterexample:
  "repr [Arr 2 [(''0'', JNum 1), (''1'', JNum 2)]] (JRef 0) (TArr [TNum 1, TNum 2]) \<and>
   tree_get (TArr [TNum 1, TNum 2]) [''length''] = None \<and>
   getValueAtPath [Arr 2 [(''0'', JNum 1), (''1'', JNum 2)]] (JRef 0) (Some [Key ''length''])
     = Inr (JNum 2) \<and>
   \<not> lacks [Arr 2 [(''0'', JNum 1), (''1'', JNum 2)]] (JRef 0) ''length'' \<and>
   setValueAtPath [Arr 2 [(''0'', JNum 1), (''1'', JNum 2)]] (JRef 0)
     (Some [Key ''length'', Key ''x'']) (JNum 1) = Inl TypeError"
  by code_simp
section \<open>Saving and selecting\<close>

lemma edit_text_error: "edit_text (st\<lparr>error_text := e\<rparr>) = edit_text st"
  by (simp add: edit_text_def)

text \<open>
  Claim C4.  When \<^verbatim>\<open>JSON.parse\<close> throws on the edit buffer or on the live document,
  \<^verbatim>\<open>handleSave\<close> stores the message of the exception that was thrown as the error (or
  \<^verbatim>\<open>Invalid JSON\<close> if it has none) and changes nothing else: \<open>editing\<close> is as before, so
  that a session that was editing still is, \<^verbatim>\<open>setContents\<close> is not called, and the live
  document, the edit buffer and the graph store are unchanged.
\<close>

theorem handleSave_parse_failure:
  assumes "(\<exists>m. json_parse ex (edit_text st) = Inl m) \<or> (\<exists>m. json_parse ex (json_text st) = Inl m)"
  shows "\<exists>st' m. handleSave ex st = Some st' \<and>
           (json_parse ex (edit_text st) = Inl m \<or> json_parse ex (json_text st) = Inl m) \<and>
           error_text st' = Some (case m of None \<Rightarrow> ''Invalid JSON'' | Some s \<Rightarrow> s) \<and>
           editing st' = editing st \<and>
           setContents_calls st' = setContents_calls st \<and>
           json_text st' = json_text st \<and>
           editValue st' = editValue st \<and>
           nodes st' = nodes st \<and>
           selectedNode st' = selectedNode st"
proof (cases "json_parse ex (edit_text st)")
  case (Inl m)
  then have "handleSave ex st = Some (caught m (st\<lparr>error_text := None\<rparr>))"
    by (simp add: handleSave_def edit_text_error Let_def)
  with Inl show ?thesis by (auto simp: caught_def intro!: exI [of _ m])
next
  case (Inr tnew)
  with assms obtain m where m: "json_parse ex (json_text st) = Inl m" by auto
  with Inr have "handleSave ex st = Some (caught m (st\<lparr>error_text := None\<rparr>))"
    by (simp add: handleSave_def edit_text_error Let_def)
  with m show ?thesis by (auto simp: caught_def intro!: exI [of _ m])
qed

text \<open>The theorem at the edit buffer \<^verbatim>\<open>{invalid\<close> over the live document \<^verbatim>\<open>{}\<close>.\<close>

theorem handleSave_parse_failure_witness:
  "((\<exists>m. json_parse sample_externals (edit_text
        \<lparr>editing = True, editValue = Some ''{invalid'', error_text = None, json_text = ''{}'',
         setContents_calls = [], nodes = [], selectedNode = None\<rparr>) = Inl m) \<or>
    (\<exists>m. json_parse sample_externals (json_text
        \<lparr>editing = True, editValue = Some ''{invalid'', error_text = None, json_text = ''{}'',
         setContents_calls = [], nodes = [], selectedNode = None\<rparr>) = Inl m)) \<and>
   (\<exists>st' m. handleSave sample_externals
        \<lparr>editing = True, editValue = Some ''{invalid'', error_text = None, json_text = ''{}'',
         setContents_calls = [], nodes = [], selectedNode = None\<rparr> = Some st' \<and>
      error_text st' = Some (case m of None \<Rightarrow> ''Invalid JSON'' | Some s \<Rightarrow> s) \<and>
      editing st' = True \<and> setContents_calls st' = [] \<and> json_text st' = ''{}'')"
proof -
  let ?st = "\<lparr>editing = True, editValue = Some ''{invalid'', error_text = None, json_text = ''{}'',
         setContents_calls = [], nodes = [], selectedNode = None\<rparr>"
  have "json_parse sample_externals (edit_text ?st) = Inl (Some ''Unexpected token'')"
    by (simp add: sample_externals_def edit_text_def)
  then have 1: "(\<exists>m. json_parse sample_externals (edit_text ?st) = Inl m) \<or>
      (\<exists>m. json_parse sample_externals (json_text ?st) = Inl m)"
    by blast
  from handleSave_parse_failure [OF 1] 1 show ?thesis by auto
qed

text \<open>
  A path that leads to nothing in the live document throws nothing: the \<^verbatim>\<open>try\<close> block runs
  to its end and hands \<^verbatim>\<open>undefined\<close>, the result of \<^verbatim>\<open>JSON.stringify\<close> on
  \<^verbatim>\<open>undefined\<close>, to \<^verbatim>\<open>setEditValue\<close>.
\<close>

lemma current_text_miss:
  assumes "json_parse ex (json_text st) = Inr t" and "alloc t [] = (parsed, h)"
    and "getValueAtPath h parsed (selected_path st) = Inr JUndefined"
  shows "current_text ex st = Some None"
  using assms by (simp add: current_text_def stringify_def)

lemma current_text_caught:
  assumes "json_parse ex (json_text st) = Inl m"
  shows "current_text ex st = Some (Some (normalizeNodeData (selected_rows st)))"
  using assms by (simp add: current_text_def)

text \<open>
  Claim C7.  The claim asks that on a resolution miss the text that seeds the edit buffer
  falls back to \<^verbatim>\<open>normalizeNodeData\<close> of the rows of the node.  The component does not do so.
  Over the live document \<^verbatim>\<open>{}\<close>, for a node with the path \<^verbatim>\<open>["a"]\<close> and the one row
  \<^verbatim>\<open>a: 1\<close>, \<^verbatim>\<open>getValueAtPath\<close> yields \<^verbatim>\<open>undefined\<close>, and the effect and the Cancel button
  set \<open>editValue\<close>, a state declared a string, to \<^verbatim>\<open>undefined\<close>.  What is displayed then is
  \<^verbatim>\<open>normalizeNodeData\<close> of the rows, as for every node that is not being edited; the Edit
  button seeds \<^verbatim>\<open>undefined\<close> again and hands it to the text area.  The fallback of the claim is
  in the \<^verbatim>\<open>catch\<close> branch of the same \<^verbatim>\<open>try\<close> block, which is taken only when a step
  throws: for the same node over a live document that does not parse, the effect sets
  \<open>editValue\<close> to \<^verbatim>\<open>normalizeNodeData\<close> of the rows.
\<close>

theorem onNodeChange_miss_seeds_undefined:
  \<open>json_parse sample_externals (json_text (stale_session ''{}'')) = Inr (TObj []) \<and>
   alloc (TObj []) [] = (JRef 0, [Obj []]) \<and>
   getValueAtPath [Obj []] (JRef 0) (selected_path (stale_session ''{}'')) = Inr JUndefined \<and>
   onNodeChange sample_externals (stale_session ''{}'')
     = Some ((stale_session ''{}'')\<lparr>editing := False, error_text := None, editValue := None\<rparr>) \<and>
   onCancelClick sample_externals (stale_session ''{}'')
     = Some ((stale_session ''{}'')\<lparr>editing := False, error_text := None, editValue := None\<rparr>) \<and>
   content_shown ((stale_session ''{}'')\<lparr>editing := False, error_text := None, editValue := None\<rparr>)
     = CodeHighlight (normalizeNodeData (node_text stale_node)) \<and>
   onEditClick sample_externals (stale_session ''{}'')
     = Some ((stale_session ''{}'')\<lparr>editValue := None, editing := True\<rparr>) \<and>
   content_shown ((stale_session ''{}'')\<lparr>editValue := None, editing := True\<rparr>) = Textarea None \<and>
   normalizeNodeData (node_text stale_node)
     = [CHR ''{'', CHR 0x0A] @ ''  "a": 1'' @ [CHR 0x0A, CHR ''}''] \<and>
   onNodeChange sample_externals (stale_session ''{invalid'')
     = Some ((stale_session ''{invalid'')\<lparr>editing := False, error_text := None,
         editValue := Some (normalizeNodeData (node_text stale_node))\<rparr>)\<close>
proof -
  have 1: "json_parse sample_externals (json_text (stale_session ''{}'')) = Inr (TObj [])"
    by (simp add: sample_externals_def stale_session_def)
  have 2: "alloc (TObj []) [] = (JRef 0, [Obj []])" by simp
  have 3: "getValueAtPath [Obj []] (JRef 0) (selected_path (stale_session ''{}'')) = Inr JUndefined"
    by code_simp
  from 1 2 3 have miss: "current_text sample_externals (stale_session ''{}'') = Some None"
    by (rule current_text_miss)
  from miss have 4: "onNodeChange sample_externals (stale_session ''{}'')
     = Some ((stale_session ''{}'')\<lparr>editing := False, error_text := None, editValue := None\<rparr>)"
    by (simp add: onNodeChange_def)
  from miss have 5: "onCancelClick sample_externals (stale_session ''{}'')
     = Some ((stale_session ''{}'')\<lparr>editing := False, error_text := None, editValue := None\<rparr>)"
    by (simp add: onCancelClick_def)
  have 6: "content_shown ((stale_session ''{}'')\<lparr>editing := False, error_text := None, editValue := None\<rparr>)
     = CodeHighlight (normalizeNodeData (node_text stale_node))"
    by (simp add: content_shown_def selected_rows_def stale_session_def)
  from miss have 7: "onEditClick sample_externals (stale_session ''{}'')
     = Some ((stale_session ''{}'')\<lparr>editValue := None, editing := True\<rparr>)"
    by (simp add: onEditClick_def)
  have 8: "content_shown ((stale_session ''{}'')\<lparr>editValue := None, editing := True\<rparr>) = Textarea None"
    by (simp add: content_shown_def)
  have 9: \<open>normalizeNodeData (node_text stale_node)
     = [CHR ''{'', CHR 0x0A] @ ''  "a": 1'' @ [CHR 0x0A, CHR ''}'']\<close>
    by code_simp
  have "json_parse sample_externals (json_text (stale_session ''{invalid''))
      = Inl (Some ''Unexpected token'')"
    by (simp add: sample_externals_def stale_session_def)
  then have "current_text sample_externals (stale_session ''{invalid'')
      = Some (Some (normalizeNodeData (selected_rows (stale_session ''{invalid''))))"
    by (rule current_text_caught)
  then have 10: "onNodeChange sample_externals (stale_session ''{invalid'')
     = Some ((stale_session ''{invalid'')\<lparr>editing := False, error_text := None,
         editValue := Some (normalizeNodeData (node_text stale_node))\<rparr>)"
    by (simp add: onNodeChange_def selected_rows_def stale_session_def)
  from 1 2 3 4 5 6 7 8 9 10 show ?thesis by blast
qed
end
